theory Spec2Isabelle
  imports Complex_Main "HOL-Library.Log_Nat"
begin

section \<open>Recursive channel model for visible light communication (main_model.py)\<close>

text \<open>
  A shallow embedding of \<^verbatim>\<open>src/main_model.py\<close>. Python and numpy floating-point
  numbers are modelled by exact numbers (\<open>rat\<close> in the tessellation, where the source
  goes through \<^verbatim>\<open>fractions.Fraction\<close>, and \<open>real\<close> in the geometry and the
  impulse response), so rounding (in particular the \<^verbatim>\<open>float16\<close> and
  \<^verbatim>\<open>float32\<close> storage of the arrays) is not part of that model. The statements
  of the tessellation that derive the cell edge and the tick counts, where a rounded
  quotient changes the integers the program goes on with, are modelled a second time in
  binary64 arithmetic (\<open>delta_Lmax_f64\<close> and \<open>tick_counts_f64\<close>). Printing,
  plotting and the writing of CSV files are left out. Every Python exception that the
  modelled statements can raise is a value of \<open>error\<close>; \<open>NotANumber\<close> stands for a
  division of 0 by 0 inside numpy, which raises nothing and yields NaN.
\<close>

subsection \<open>Errors and Python arithmetic\<close>

datatype error = ZeroDivisionError | ValueError | IndexError | UnboundLocalError | NotANumber

text \<open>Sequencing of statements that may raise: the first exception ends the run.\<close>

definition bnd :: "error + 'a \<Rightarrow> ('a \<Rightarrow> error + 'b) \<Rightarrow> error + 'b" where
  "bnd m f = (case m of Inl e \<Rightarrow> Inl e | Inr v \<Rightarrow> f v)"

text \<open>\<^verbatim>\<open>int(q)\<close> on a number: truncation towards zero.\<close>

definition py_int :: "rat \<Rightarrow> int" where
  "py_int q = (if 0 \<le> q then \<lfloor>q\<rfloor> else \<lceil>q\<rceil>)"

text \<open>\<^verbatim>\<open>a / b\<close> on Python numbers raises on a zero divisor.\<close>

definition py_truediv :: "rat \<Rightarrow> rat \<Rightarrow> error + rat" where
  "py_truediv a b = (if b = 0 then Inl ZeroDivisionError else Inr (a / b))"

text \<open>\<^verbatim>\<open>range(0, n)\<close> for a Python integer \<open>n\<close>: empty when \<open>n \<le> 0\<close>.\<close>

definition py_range :: "int \<Rightarrow> nat list" where
  "py_range n = [0..<nat n]"

subsection \<open>The helper \<^verbatim>\<open>lcm\<close> (source line 247)\<close>

text \<open>
  \<^verbatim>\<open>def lcm(num1, num2, num3):
      return abs(num1*num2*num3) // math.gcd(num3, math.gcd(num1, num2))\<close>
  The source comments it as \<^verbatim>\<open>#MCM\<close> (least common multiple). \<^verbatim>\<open>//\<close> raises
  on a zero divisor; on a non-negative dividend and a positive divisor it is \<open>div\<close>.
\<close>

definition lcm3 :: "int \<Rightarrow> int \<Rightarrow> int \<Rightarrow> error + int" where
  "lcm3 num1 num2 num3 =
     (let g = gcd num3 (gcd num1 num2)
      in if g = 0 then Inl ZeroDivisionError else Inr (\<bar>num1 * num2 * num3\<bar> div g))"

subsection \<open>Tessellation (source lines 101 to 244)\<close>

text \<open>
  Lines 132 to 151: the three dimensions as fractions
  (\<^verbatim>\<open>Fraction(str(x_lim))\<close> is the exact value of the decimal literal, here the
  \<open>rat\<close> itself, in lowest terms with a positive denominator, as \<open>quotient_of\<close> gives
  it), the common multiple of the denominators, the tick counts and their gcd. The
  quotients are exact here and in \<open>tessellation\<close> below: this is the arithmetic the
  statements are written for, and it is what the program computes as long as no
  quotient is rounded (as for the rooms 2 x 2 x 2 and 1 x 1 x 1 with the scale factors
  1 and 1/2). The rounded quotients are in \<open>delta_Lmax_f64\<close> and \<open>tick_counts_f64\<close>.
\<close>

definition delta_Lmax :: "rat \<Rightarrow> rat \<Rightarrow> rat \<Rightarrow> error + rat" where
  "delta_Lmax x_lim y_lim z_lim =
     (let (x_num, x_den) = quotient_of x_lim;
          (y_num, y_den) = quotient_of y_lim;
          (z_num, z_den) = quotient_of z_lim
      in bnd (lcm3 x_den y_den z_den) (\<lambda>den_lcm.
         bnd (py_truediv (of_int (den_lcm * x_num)) (of_int x_den)) (\<lambda>qx.
         bnd (py_truediv (of_int (den_lcm * y_num)) (of_int y_den)) (\<lambda>qy.
         bnd (py_truediv (of_int (den_lcm * z_num)) (of_int z_den)) (\<lambda>qz.
         let n_x = py_int qx; n_y = py_int qy; n_z = py_int qz;
             num_gfc = gcd n_z (gcd n_x n_y)
         in py_truediv (of_int num_gfc) (of_int den_lcm))))))"

text \<open>
  The array of points is a \<open>4 \<times> N\<close> numpy array; it is modelled as the list of its
  columns \<open>(x, y, z, wall)\<close>. \<^verbatim>\<open>np.zeros((4, n))\<close> raises on a negative \<open>n\<close>.
\<close>

type_synonym column = "rat \<times> rat \<times> rat \<times> rat"

definition np_zeros4 :: "int \<Rightarrow> error + column list" where
  "np_zeros4 n = (if n < 0 then Inl ValueError else Inr (replicate (nat n) (0, 0, 0, 0)))"

text \<open>
  Each of the three loop nests (lines 195, 210 and 226) fills two wall arrays at the
  running index \<^verbatim>\<open>counter_cell\<close>; \<open>pa j i\<close> and \<open>pb j i\<close> are the columns the body
  writes for the outer index \<open>j\<close> and the inner index \<open>i\<close>. The counter stays below
  the product of the two tick counts, which is the length of both arrays, so no write
  is out of range.
\<close>

definition fill_walls ::
  "(nat \<Rightarrow> nat \<Rightarrow> column) \<Rightarrow> (nat \<Rightarrow> nat \<Rightarrow> column) \<Rightarrow> int \<Rightarrow> int \<Rightarrow>
     column list \<Rightarrow> column list \<Rightarrow> column list \<times> column list" where
  "fill_walls pa pb n_outer n_inner ewa ewb =
     (let (ewa', ewb', counter_cell) =
            fold (\<lambda>j. fold (\<lambda>i (a, b, c). (a[c := pa j i], b[c := pb j i], c + 1))
                           (py_range n_inner))
                 (py_range n_outer) (ewa, ewb, 0::nat)
      in (ewa', ewb'))"

text \<open>Lines 185 to 191: the start index of each wall inside the concatenated array.\<close>

definition init_index_of :: "column list list \<Rightarrow> rat list" where
  "init_index_of points =
     fold (\<lambda>i ii. ii[i := of_nat (length (points ! (i - 1))) + ii ! (i - 1)])
          [1..<6] (replicate 6 0)"

text \<open>
  The list that \<^verbatim>\<open>tessellation\<close> returns: \<^verbatim>\<open>array_points\<close>, \<^verbatim>\<open>no_xtick\<close>,
  \<^verbatim>\<open>no_ytick\<close>, \<^verbatim>\<open>no_ztick\<close>, \<^verbatim>\<open>init_index\<close>, \<^verbatim>\<open>delta_A\<close> and
  \<^verbatim>\<open>no_points\<close>, in this order.
\<close>

record tess =
  tess_array_points :: "column list"
  tess_no_xtick :: int
  tess_no_ytick :: int
  tess_no_ztick :: int
  tess_init_index :: "rat list"
  tess_delta_A :: rat
  tess_no_points :: int

definition tessellation :: "rat \<Rightarrow> rat \<Rightarrow> rat \<Rightarrow> rat \<Rightarrow> error + tess" where
  "tessellation x_lim y_lim z_lim scale_factor =
     bnd (delta_Lmax x_lim y_lim z_lim) (\<lambda>dLmax.
     let delta_L = dLmax * scale_factor;
         delta_A = delta_L ^ 2 / 200
     in bnd (py_truediv x_lim delta_L) (\<lambda>qx.
        bnd (py_truediv y_lim delta_L) (\<lambda>qy.
        bnd (py_truediv z_lim delta_L) (\<lambda>qz.
        let no_xtick = py_int qx; no_ytick = py_int qy; no_ztick = py_int qz
        in bnd (np_zeros4 (no_xtick * no_ytick)) (\<lambda>ew0_0.
           bnd (np_zeros4 (no_ztick * no_xtick)) (\<lambda>ew1_0.
           bnd (np_zeros4 (no_ztick * no_ytick)) (\<lambda>ew2_0.
           bnd (np_zeros4 (no_ztick * no_xtick)) (\<lambda>ew3_0.
           bnd (np_zeros4 (no_ztick * no_ytick)) (\<lambda>ew4_0.
           bnd (np_zeros4 (no_xtick * no_ytick)) (\<lambda>ew5_0.
           let init_index = init_index_of [ew0_0, ew1_0, ew2_0, ew3_0, ew4_0, ew5_0];
               (ew0, ew5) =
                 fill_walls
                   (\<lambda>j i. (delta_L / 2 + of_nat j * delta_L,
                            delta_L / 2 + of_nat i * delta_L, z_lim, 0))
                   (\<lambda>j i. (delta_L / 2 + of_nat j * delta_L,
                            delta_L / 2 + of_nat i * delta_L, 0, 5))
                   no_xtick no_ytick ew0_0 ew5_0;
               (ew1, ew3) =
                 fill_walls
                   (\<lambda>j i. (x_lim - delta_L / 2 - of_nat i * delta_L, 0,
                            z_lim - delta_L / 2 - of_nat j * delta_L, 1))
                   (\<lambda>j i. (x_lim - delta_L / 2 - of_nat i * delta_L, y_lim,
                            z_lim - delta_L / 2 - of_nat j * delta_L, 3))
                   no_ztick no_xtick ew1_0 ew3_0;
               (ew2, ew4) =
                 fill_walls
                   (\<lambda>j i. (0, delta_L / 2 + of_nat i * delta_L / 2,
                            z_lim - delta_L / 2 - of_nat j * delta_L, 2))
                   (\<lambda>j i. (x_lim, delta_L / 2 + of_nat i * delta_L / 2,
                            z_lim - delta_L / 2 - of_nat j * delta_L, 4))
                   no_ztick no_ytick ew2_0 ew4_0
           in Inr \<lparr> tess_array_points = ew0 @ ew1 @ ew2 @ ew3 @ ew4 @ ew5,
                    tess_no_xtick = no_xtick, tess_no_ytick = no_ytick,
                    tess_no_ztick = no_ztick,
                    tess_init_index = init_index, tess_delta_A = delta_A,
                    tess_no_points = 2 * no_xtick * no_ytick + 2 * no_ztick * no_xtick
                                       + 2 * no_ztick * no_ytick \<rparr>))))))))))"

subsection \<open>Tessellation: the cell edge and the tick counts in binary64 arithmetic\<close>

text \<open>
  A Python float is a binary64 number, and every operation on floats returns the float
  nearest to the exact result, a tie going to the even significand. \<open>fl x\<close> is that
  float for a rational \<open>x\<close>: with \<open>2 ^ 52 \<le> \<bar>x\<bar> * 2 ^ k < 2 ^ 53\<close>, the integer nearest to
  \<open>\<bar>x\<bar> * 2 ^ k\<close>, scaled back. The range of the exponent is not bounded here: overflow
  (beyond about \<open>1.8e308\<close>) and the subnormal numbers (below about \<open>2.2e-308\<close>) are
  outside this model.
\<close>

definition round_half_even :: "int \<Rightarrow> int \<Rightarrow> int" where
  "round_half_even n d =
     (let q = n div d; r = n mod d
      in if 2 * r < d then q else if d < 2 * r then q + 1 else if even q then q else q + 1)"

text \<open>The fraction \<open>n / d * 2 ^ k\<close> for an integer \<open>k\<close> of either sign.\<close>

definition scale2 :: "int \<Rightarrow> int \<Rightarrow> int \<Rightarrow> int \<times> int" where
  "scale2 n d k = (if 0 \<le> k then (n * 2 ^ nat k, d) else (n, d * 2 ^ nat (- k)))"

text \<open>
  For positive \<open>n\<close> and \<open>d\<close>: \<open>floorlog 2\<close> is the number of binary digits, so
  \<open>n / d * 2 ^ k0\<close> lies between \<open>2 ^ 51\<close> and \<open>2 ^ 53\<close>, and \<open>k\<close> is \<open>k0\<close> or \<open>k0 + 1\<close>.
\<close>

definition fl_pos :: "int \<Rightarrow> int \<Rightarrow> rat" where
  "fl_pos n d =
     (let k0 = 52 + int (floorlog 2 (nat d)) - int (floorlog 2 (nat n));
          k = (case scale2 n d k0 of (p, q) \<Rightarrow> if p < 2 ^ 52 * q then k0 + 1 else k0);
          m = (case scale2 n d k of (p, q) \<Rightarrow> round_half_even p q)
      in if 0 \<le> k then of_int m / 2 ^ nat k else of_int m * 2 ^ nat (- k))"

definition fl :: "rat \<Rightarrow> rat" where
  "fl x =
     (case quotient_of x of (a, b) \<Rightarrow>
        if a = 0 then 0 else if 0 < a then fl_pos a b else - fl_pos (- a) b)"

text \<open>
  \<^verbatim>\<open>a / b\<close> on two Python integers is the float nearest to the exact quotient;
  \<^verbatim>\<open>a / b\<close> and \<^verbatim>\<open>a * b\<close> on floats round the exact result. An integer operand
  of a float operation is first converted to a float.
\<close>

definition int_truediv :: "int \<Rightarrow> int \<Rightarrow> error + rat" where
  "int_truediv a b = (if b = 0 then Inl ZeroDivisionError else Inr (fl (of_int a / of_int b)))"

definition float_truediv :: "rat \<Rightarrow> rat \<Rightarrow> error + rat" where
  "float_truediv a b = (if b = 0 then Inl ZeroDivisionError else Inr (fl (a / b)))"

definition float_mul :: "rat \<Rightarrow> rat \<Rightarrow> rat" where
  "float_mul a b = fl (a * b)"

text \<open>
  Lines 132 to 151 in this arithmetic. An argument is given by the decimal number that
  \<^verbatim>\<open>str\<close> prints for it (for a decimal literal of at most 15 significant digits,
  the literal itself), so that \<^verbatim>\<open>Fraction(str(x_lim))\<close> is the argument in lowest
  terms; the float that the program holds is \<open>fl x_lim\<close>. The products
  \<^verbatim>\<open>den_lcm*x_num\<close> are products of Python integers and exact; the quotients of
  lines 142 to 144 and of line 151 are floats.
\<close>

definition delta_Lmax_f64 :: "rat \<Rightarrow> rat \<Rightarrow> rat \<Rightarrow> error + rat" where
  "delta_Lmax_f64 x_lim y_lim z_lim =
     (let (x_num, x_den) = quotient_of x_lim;
          (y_num, y_den) = quotient_of y_lim;
          (z_num, z_den) = quotient_of z_lim
      in bnd (lcm3 x_den y_den z_den) (\<lambda>den_lcm.
         bnd (int_truediv (den_lcm * x_num) x_den) (\<lambda>qx.
         bnd (int_truediv (den_lcm * y_num) y_den) (\<lambda>qy.
         bnd (int_truediv (den_lcm * z_num) z_den) (\<lambda>qz.
         let n_x = py_int qx; n_y = py_int qy; n_z = py_int qz;
             num_gfc = gcd n_z (gcd n_x n_y)
         in int_truediv num_gfc den_lcm)))))"

text \<open>
  Lines 156 and 173 to 175 in this arithmetic: the cell edge \<^verbatim>\<open>delta_L\<close> and the
  three tick counts \<^verbatim>\<open>no_xtick\<close>, \<^verbatim>\<open>no_ytick\<close> and \<^verbatim>\<open>no_ztick\<close>.
\<close>

definition tick_counts_f64 :: "rat \<Rightarrow> rat \<Rightarrow> rat \<Rightarrow> rat \<Rightarrow> error + rat \<times> int \<times> int \<times> int" where
  "tick_counts_f64 x_lim y_lim z_lim scale_factor =
     bnd (delta_Lmax_f64 x_lim y_lim z_lim) (\<lambda>delta_Lmax.
     let delta_L = float_mul delta_Lmax (fl scale_factor)
     in bnd (float_truediv (fl x_lim) delta_L) (\<lambda>qx.
        bnd (float_truediv (fl y_lim) delta_L) (\<lambda>qy.
        bnd (float_truediv (fl z_lim) delta_L) (\<lambda>qz.
        Inr (delta_L, py_int qx, py_int qy, py_int qz)))))"

subsection \<open>Histograms (source lines 481 to 545)\<close>

text \<open>The module constants of lines 39 to 45.\<close>

definition SPEED_OF_LIGHT :: real where
  "SPEED_OF_LIGHT = 300000000"

definition TIME_RESOLUTION :: real where
  "TIME_RESOLUTION = 2 / 10000000000"

definition BINS_HIST :: nat where
  "BINS_HIST = 300"

text \<open>
  An impulse response of one order is an \<open>n \<times> 2\<close> numpy array: the list of its rows
  \<open>(power, delay)\<close>. \<^verbatim>\<open>h_k\<close> is a Python list of such arrays; the assignment
  \<^verbatim>\<open>hk_aux[i] = h_k[i]\<close> of line 528 binds a second name to the same array object,
  and lines 529 and 530 then write through it. To keep that sharing, arrays live in a
  store (a list of arrays, an address being a position in it) and both \<^verbatim>\<open>h_k\<close> and
  \<^verbatim>\<open>hk_aux\<close> are lists of addresses. Allocation appends to the store.
\<close>

type_synonym arr = "(real \<times> real) list"

type_synonym store = "arr list"

definition alloc :: "store \<Rightarrow> arr \<Rightarrow> store \<times> nat" where
  "alloc s a = (s @ [a], length s)"

text \<open>\<^verbatim>\<open>xs[i]\<close> on a Python list and \<^verbatim>\<open>a[j, :]\<close> on an array, for an index that is not negative.\<close>

definition py_get :: "'a list \<Rightarrow> nat \<Rightarrow> error + 'a" where
  "py_get xs i = (if i < length xs then Inr (xs ! i) else Inl IndexError)"

text \<open>\<^verbatim>\<open>int(x)\<close> on a float: truncation towards zero.\<close>

definition py_int_r :: "real \<Rightarrow> int" where
  "py_int_r x = (if 0 \<le> x then \<lfloor>x\<rfloor> else \<lceil>x\<rceil>)"

text \<open>
  \<^verbatim>\<open>hist_power_time[idx, i] += p\<close> (line 533) on the \<open>BINS_HIST \<times> (k_reflec + 1)\<close>
  array, held as the list of its rows (one row per bin, one entry per order). numpy
  accepts an \<open>idx\<close> from \<open>- rows\<close> up to \<open>rows - 1\<close>, a negative one counting from
  the end, and raises IndexError on any other; the same holds for the column.
\<close>

definition np_index :: "nat \<Rightarrow> int \<Rightarrow> error + nat" where
  "np_index n idx =
     (if 0 \<le> idx \<and> idx < int n then Inr (nat idx)
      else if - int n \<le> idx \<and> idx < 0 then Inr (nat (idx + int n))
      else Inl IndexError)"

definition np_add_at :: "real list list \<Rightarrow> int \<Rightarrow> nat \<Rightarrow> real \<Rightarrow> error + real list list" where
  "np_add_at hist idx i p =
     bnd (np_index (length hist) idx) (\<lambda>b.
     bnd (py_get (hist ! b) i) (\<lambda>old.
     Inr (hist[b := (hist ! b)[i := old + p]])))"

text \<open>Lines 532 and 533: the loop over the records of one order.\<close>

fun hist_accumulate :: "arr \<Rightarrow> nat \<Rightarrow> nat list \<Rightarrow> real list list \<Rightarrow> error + real list list" where
  "hist_accumulate a i [] hist = Inr hist"
| "hist_accumulate a i (j # js) hist =
     bnd (py_get a j) (\<lambda>(p, d).
     bnd (np_add_at hist (py_int_r d) i p) (\<lambda>hist'.
     hist_accumulate a i js hist'))"

text \<open>
  The state of the loop over the orders (line 515). \<open>h_power\<close> is only printed by the
  source (``Power[w]''); it is kept in the state, and in the result, as the reported
  total power of each order.
\<close>

record hstate =
  heap :: store
  hk_aux :: "nat list"
  h_power :: "real list"
  hist_power_time :: "real list list"

text \<open>
  One turn of the loop, lines 517 to 533, for order \<open>i\<close>. The result is the exception
  raised, if any, and the state reached.
\<close>

definition order_body :: "nat list \<Rightarrow> real \<Rightarrow> nat \<Rightarrow> nat \<Rightarrow> hstate \<Rightarrow> error option \<times> hstate" where
  "order_body h_k delay_los no_cells i st =
     (let (s1, fresh) = alloc (heap st) (replicate (no_cells ^ i) (0, 0));
          st1 = st\<lparr>heap := s1, hk_aux := hk_aux st @ [fresh]\<rparr>
      in case py_get h_k i of
           Inl e \<Rightarrow> (Some e, st1)
         | Inr r \<Rightarrow>
             let st2 = st1\<lparr>h_power := (h_power st1)[i := sum_list (map fst (s1 ! r))]\<rparr>;
                 st3 = st2\<lparr>hk_aux := (hk_aux st2)[i := r]\<rparr>;
                 ra = hk_aux st3 ! i;
                 s4 = (heap st3)[ra := map (\<lambda>(p, d). (p, d - delay_los)) (heap st3 ! ra)];
                 s5 = s4[ra := map (\<lambda>(p, d). (p, of_int \<lfloor>d / TIME_RESOLUTION\<rfloor>)) (s4 ! ra)];
                 st5 = st3\<lparr>heap := s5\<rparr>
             in case hist_accumulate (s5 ! ra) i [0..<no_cells ^ i] (hist_power_time st5) of
                  Inl e \<Rightarrow> (Some e, st5)
                | Inr hist' \<Rightarrow> (None, st5\<lparr>hist_power_time := hist'\<rparr>))"

fun orders_loop :: "nat list \<Rightarrow> real \<Rightarrow> nat \<Rightarrow> nat list \<Rightarrow> hstate \<Rightarrow> error option \<times> hstate" where
  "orders_loop h_k delay_los no_cells [] st = (None, st)"
| "orders_loop h_k delay_los no_cells (i # is) st =
     (case order_body h_k delay_los no_cells i st of
        (Some e, st') \<Rightarrow> (Some e, st')
      | (None, st') \<Rightarrow> orders_loop h_k delay_los no_cells is st')"

text \<open>
  \<^verbatim>\<open>linspace(0, BINS_HIST*TIME_RESOLUTION, num=BINS_HIST)\<close>: \<open>BINS_HIST\<close> points from
  0 to the end point, both included.
\<close>

definition time_scale_of :: "real list" where
  "time_scale_of =
     map (\<lambda>n. of_nat n * (of_nat BINS_HIST * TIME_RESOLUTION / of_nat (BINS_HIST - 1)))
         [0..<BINS_HIST]"

record histograms =
  hist_power_time_out :: "real list list"
  total_ht :: "real list"
  time_scale :: "real list"
  h_power_out :: "real list"

text \<open>
  \<^verbatim>\<open>create_histograms(h_k, k_reflec, no_cells)\<close>, with the store before the call as
  first argument and the store after it (also when an exception ends the call) as second
  result. \<open>k_reflec\<close> and \<open>no_cells\<close> are counts and are taken as natural numbers.
\<close>

definition create_histograms ::
  "store \<Rightarrow> nat list \<Rightarrow> nat \<Rightarrow> nat \<Rightarrow> (error + histograms) \<times> store" where
  "create_histograms s h_k k_reflec no_cells =
     (case py_get h_k 0 of
        Inl e \<Rightarrow> (Inl e, s)
      | Inr r0 \<Rightarrow>
          (case py_get (s ! r0) 0 of
             Inl e \<Rightarrow> (Inl e, s)
           | Inr (p0, delay_los) \<Rightarrow>
               let st0 = \<lparr> heap = s, hk_aux = [],
                           h_power = replicate (k_reflec + 1) 0,
                           hist_power_time = replicate BINS_HIST (replicate (k_reflec + 1) 0) \<rparr>
               in case orders_loop h_k delay_los no_cells [0..<k_reflec + 1] st0 of
                    (Some e, st) \<Rightarrow> (Inl e, heap st)
                  | (None, st) \<Rightarrow>
                      (Inr \<lparr> hist_power_time_out = hist_power_time st,
                              total_ht = map sum_list (hist_power_time st),
                              time_scale = time_scale_of,
                              h_power_out = h_power st \<rparr>,
                       heap st)))"

subsection \<open>Pairwise parameters (source lines 55 to 68 and 251 to 322)\<close>

text \<open>
  \<^verbatim>\<open>NORMAL_VECTOR_WALL\<close> (line 45), and \<^verbatim>\<open>NORMAL_VECTOR_WALL[w]\<close> for a Python
  integer \<open>w\<close>: a negative index counts from the end, an index outside \<open>[-6, 6)\<close>
  raises IndexError.
\<close>

type_synonym vec = "real \<times> real \<times> real"

definition NORMAL_VECTOR_WALL :: "vec list" where
  "NORMAL_VECTOR_WALL = [(0, 0, -1), (0, 1, 0), (1, 0, 0), (0, -1, 0), (-1, 0, 0), (0, 0, 1)]"

definition normal_of_wall :: "int \<Rightarrow> error + vec" where
  "normal_of_wall w =
     bnd (np_index (length NORMAL_VECTOR_WALL) w) (\<lambda>k. Inr (NORMAL_VECTOR_WALL ! k))"

definition dot :: "vec \<Rightarrow> vec \<Rightarrow> real" where
  "dot u v = (case u of (u1, u2, u3) \<Rightarrow> case v of (v1, v2, v3) \<Rightarrow> u1 * v1 + u2 * v2 + u3 * v3)"

definition vminus :: "vec \<Rightarrow> vec \<Rightarrow> vec" where
  "vminus u v = (case u of (u1, u2, u3) \<Rightarrow> case v of (v1, v2, v3) \<Rightarrow> (u1 - v1, u2 - v2, u3 - v3))"

definition vscale :: "real \<Rightarrow> vec \<Rightarrow> vec" where
  "vscale c v = (case v of (v1, v2, v3) \<Rightarrow> (c * v1, c * v2, c * v3))"

definition norm3 :: "vec \<Rightarrow> real" where
  "norm3 v = sqrt (dot v v)"

text \<open>\<^verbatim>\<open>fastdist.euclidean(u, v)\<close>: the Euclidean distance.\<close>

definition euclidean :: "vec \<Rightarrow> vec \<Rightarrow> real" where
  "euclidean u v = norm3 (vminus u v)"

text \<open>
  \<^verbatim>\<open>cos_2points(v1, n1, v2, n2)\<close>, lines 55 to 68. For \<open>v1 = v2\<close> numpy divides
  by zero, warns and returns NaN for both cosines; exact numbers have no NaN, so the
  model ends the run there with \<open>NotANumber\<close>.
\<close>

definition cos_2points :: "vec \<Rightarrow> vec \<Rightarrow> vec \<Rightarrow> vec \<Rightarrow> error + real \<times> real" where
  "cos_2points v1 n1 v2 n2 =
     (if norm3 (vminus v1 v2) = 0 then Inl NotANumber
      else let unit_vlos = vscale (1 / norm3 (vminus v1 v2)) (vminus v1 v2);
               cos_phi = dot (vscale (-1) unit_vlos) n1;
               cos_tetha = dot unit_vlos n2
           in Inr (cos_phi, cos_tetha))"

text \<open>
  \<^verbatim>\<open>ew_par\<close> is a \<open>2 \<times> N \<times> N\<close> array, \<open>N\<close> being \<^verbatim>\<open>no_points\<close>: plane 0 holds
  the distances, plane 1 the cosines. Each plane is modelled as a function of the two
  indices; all reads and writes of the source are at indices below \<open>N\<close>.
  \<^verbatim>\<open>np.zeros\<close> gives the planes that are 0 everywhere.
\<close>

record params =
  distance :: "nat \<Rightarrow> nat \<Rightarrow> real"
  cos_angle :: "nat \<Rightarrow> nat \<Rightarrow> real"

definition set_entry :: "(nat \<Rightarrow> nat \<Rightarrow> real) \<Rightarrow> nat \<Rightarrow> nat \<Rightarrow> real \<Rightarrow> (nat \<Rightarrow> nat \<Rightarrow> real)" where
  "set_entry M i j v = M(i := (M i)(j := v))"

type_synonym rcolumn = "real \<times> real \<times> real \<times> real"

text \<open>Lines 301 to 313: the body of the inner loop, for the pair \<open>(ini_point, end_point)\<close>.\<close>

definition pair_body :: "rcolumn list \<Rightarrow> nat \<Rightarrow> nat \<Rightarrow> params \<Rightarrow> error + params" where
  "pair_body array_points ini_point end_point ew_par =
     bnd (py_get array_points ini_point) (\<lambda>(x1, y1, z1, w1).
     bnd (py_get array_points end_point) (\<lambda>(x2, y2, z2, w2).
     if w1 = w2 then
       Inr (ew_par\<lparr> distance := set_entry (distance ew_par) ini_point end_point 0,
                    cos_angle := set_entry (cos_angle ew_par) ini_point end_point 0 \<rparr>)
     else
       let wallinit = py_int_r w1; wallend = py_int_r w2;
           d = euclidean (x1, y1, z1) (x2, y2, z2)
       in bnd (normal_of_wall wallinit) (\<lambda>n1.
          bnd (normal_of_wall wallend) (\<lambda>n2.
          bnd (cos_2points (x1, y1, z1) n1 (x2, y2, z2) n2) (\<lambda>(cos_phi, cos_tetha).
          Inr (ew_par\<lparr> distance :=
                         set_entry (set_entry (distance ew_par) ini_point end_point d)
                                   end_point ini_point d,
                       cos_angle :=
                         set_entry (set_entry (cos_angle ew_par) ini_point end_point cos_phi)
                                   end_point ini_point cos_tetha \<rparr>))))))"

text \<open>The two loops of lines 297 and 299.\<close>

fun inner_loop :: "rcolumn list \<Rightarrow> nat \<Rightarrow> nat list \<Rightarrow> params \<Rightarrow> error + params" where
  "inner_loop array_points ini_point [] ew_par = Inr ew_par"
| "inner_loop array_points ini_point (end_point # es) ew_par =
     bnd (pair_body array_points ini_point end_point ew_par)
         (inner_loop array_points ini_point es)"

fun outer_loop :: "rcolumn list \<Rightarrow> nat \<Rightarrow> nat list \<Rightarrow> params \<Rightarrow> error + params" where
  "outer_loop array_points n [] ew_par = Inr ew_par"
| "outer_loop array_points n (ini_point # is) ew_par =
     bnd (inner_loop array_points ini_point [ini_point + 1..<n] ew_par)
         (outer_loop array_points n is)"

definition make_parameters ::
  "rcolumn list \<Rightarrow> real \<Rightarrow> real \<Rightarrow> real \<Rightarrow> int \<Rightarrow> int \<Rightarrow> int \<Rightarrow> error + params" where
  "make_parameters array_points x_lim y_lim z_lim no_xtick no_ytick no_ztick =
     (let no_points = 2 * no_xtick * no_ytick + 2 * no_ztick * no_xtick + 2 * no_ztick * no_ytick
      in if no_points < 0 then Inl ValueError
         else outer_loop array_points (nat no_points) [0..<nat no_points]
                \<lparr> distance = (\<lambda>i j. 0), cos_angle = (\<lambda>i j. 0) \<rparr>)"

text \<open>The points of a tessellation as \<^verbatim>\<open>make_parameters\<close> receives them.\<close>

definition real_column :: "column \<Rightarrow> rcolumn" where
  "real_column c = (case c of (x, y, z, w) \<Rightarrow> (of_rat x, of_rat y, of_rat z, of_rat w))"

subsection \<open>Impulse response (source lines 325 to 478)\<close>

text \<open>
  A position is a Python list of three numbers. Lines 370 and 374 use it as an index
  into the numpy array \<^verbatim>\<open>wall_label\<close>; numpy accepts a list of Python integers
  (each within the bounds, a negative one counting from the end) and raises IndexError
  for a list that holds a float, so the model keeps apart the two kinds of number.
\<close>

datatype pynum = PyInt int | PyFloat real

fun num_val :: "pynum \<Rightarrow> real" where
  "num_val (PyInt k) = of_int k"
| "num_val (PyFloat x) = x"

type_synonym position = "pynum \<times> pynum \<times> pynum"

fun np_take_one :: "real list \<Rightarrow> pynum \<Rightarrow> error + real" where
  "np_take_one a (PyInt k) = bnd (np_index (length a) k) (\<lambda>b. Inr (a ! b))"
| "np_take_one a (PyFloat x) = Inl IndexError"

definition np_take :: "real list \<Rightarrow> position \<Rightarrow> error + real list" where
  "np_take a pos =
     (case pos of (p1, p2, p3) \<Rightarrow>
        bnd (np_take_one a p1) (\<lambda>l1.
        bnd (np_take_one a p2) (\<lambda>l2.
        bnd (np_take_one a p3) (\<lambda>l3. Inr [l1, l2, l3]))))"

text \<open>
  \<^verbatim>\<open>np.allclose(a, b)\<close> with the default tolerances: every component satisfies
  \<open>|a - b| \<le> atol + rtol * |b|\<close>, \<open>atol = 1e-8\<close> and \<open>rtol = 1e-5\<close>.
\<close>

definition isclose :: "real \<Rightarrow> real \<Rightarrow> bool" where
  "isclose a b \<longleftrightarrow> \<bar>a - b\<bar> \<le> 1 / 10 ^ 8 + 1 / 10 ^ 5 * \<bar>b\<bar>"

definition allclose :: "position \<Rightarrow> vec \<Rightarrow> bool" where
  "allclose pos v =
     (case pos of (p1, p2, p3) \<Rightarrow> case v of (v1, v2, v3) \<Rightarrow>
        isclose (num_val p1) v1 \<and> isclose (num_val p2) v2 \<and> isclose (num_val p3) v3)"

text \<open>
  The search loops of lines 377 and 385: the first index whose column is close to the
  position. When there is none the loop ends without having assigned the variable.
\<close>

fun index_point :: "position \<Rightarrow> vec list \<Rightarrow> nat option" where
  "index_point pos [] = None"
| "index_point pos (v # vs) =
     (if allclose pos v then Some 0 else map_option Suc (index_point pos vs))"

text \<open>Reading a local variable that was never assigned raises UnboundLocalError.\<close>

definition read_local :: "'a option \<Rightarrow> error + 'a" where
  "read_local v = (case v of None \<Rightarrow> Inl UnboundLocalError | Some x \<Rightarrow> Inr x)"

definition py_truediv_r :: "real \<Rightarrow> real \<Rightarrow> error + real" where
  "py_truediv_r a b = (if b = 0 then Inl ZeroDivisionError else Inr (a / b))"

text \<open>
  \<^verbatim>\<open>np.divide(a, b, out=np.zeros(...), where=w)\<close>: the quotient where the mask holds,
  the 0 of \<^verbatim>\<open>out\<close> elsewhere.
\<close>

definition np_divide_where :: "real \<Rightarrow> real \<Rightarrow> bool \<Rightarrow> real" where
  "np_divide_where a b w = (if w then a / b else 0)"

text \<open>
  The arrays of lines 395 to 416, entry by entry. \<^verbatim>\<open>parameters\<close> is the
  \<open>2 \<times> N \<times> N\<close> array of \<^verbatim>\<open>make_parameters\<close>, \<open>N\<close> being the number of columns of
  \<^verbatim>\<open>points\<close>. The Lambertian number \<open>m\<close> is taken as a natural number (the
  repository's main passes 1).
\<close>

definition dis2 :: "params \<Rightarrow> nat \<Rightarrow> nat \<Rightarrow> real" where
  "dis2 parameters i j = (distance parameters i j) ^ 2"

definition tx_power :: "nat \<Rightarrow> params \<Rightarrow> nat \<Rightarrow> nat \<Rightarrow> real" where
  "tx_power m parameters tx_index_point j =
     (of_nat m + 1) / (2 * pi)
       * (np_divide_where 1 (dis2 parameters tx_index_point j)
            (dis2 parameters tx_index_point j \<noteq> 0)
          * cos_angle parameters tx_index_point j ^ m)"

definition rx_wall_factor :: "real \<Rightarrow> params \<Rightarrow> nat \<Rightarrow> nat \<Rightarrow> real" where
  "rx_wall_factor a_r parameters rx_index_point j = a_r * cos_angle parameters rx_index_point j"

definition h0_se :: "real \<Rightarrow> real \<Rightarrow> real \<Rightarrow> nat \<Rightarrow> params \<Rightarrow> nat \<Rightarrow> nat \<Rightarrow> real \<times> real" where
  "h0_se area_factor rho delta_A m parameters tx_index_point j =
     (area_factor * rho * delta_A * tx_power m parameters tx_index_point j
        * cos_angle parameters j tx_index_point,
      distance parameters tx_index_point j / SPEED_OF_LIGHT)"

definition h0_er :: "real \<Rightarrow> params \<Rightarrow> nat \<Rightarrow> nat \<Rightarrow> real \<times> real" where
  "h0_er a_r parameters rx_index_point j =
     (np_divide_where
        (cos_angle parameters j rx_index_point * rx_wall_factor a_r parameters rx_index_point j)
        (pi * dis2 parameters rx_index_point j)
        (dis2 parameters rx_index_point j \<noteq> 0),
      distance parameters rx_index_point j / SPEED_OF_LIGHT)"

definition dP_ij :: "real \<Rightarrow> real \<Rightarrow> params \<Rightarrow> nat \<Rightarrow> nat \<Rightarrow> real" where
  "dP_ij rho delta_A parameters i j =
     np_divide_where (rho * delta_A * cos_angle parameters i j * cos_angle parameters j i)
                     (pi * dis2 parameters i j) (dis2 parameters i j \<noteq> 0)"

text \<open>\<^verbatim>\<open>range(l, len_last, no_cells)\<close> of lines 473 and 474.\<close>

definition strided :: "nat \<Rightarrow> nat \<Rightarrow> nat \<Rightarrow> nat list" where
  "strided l len_last no_cells =
     map (\<lambda>t. l + t * no_cells) [0..<(len_last - l + no_cells - 1) div no_cells]"

text \<open>
  One turn of the loop of line 425, for order \<open>i\<close>: the arrays appended to
  \<^verbatim>\<open>h_k\<close> and \<^verbatim>\<open>hlast_er\<close>, with their final contents. For an order of 2 or
  more the slice assignments of lines 456 and 457 fill \<^verbatim>\<open>hlast_er[i]\<close> block after
  block, one block of \<open>no_cells\<close> rows for each row of \<^verbatim>\<open>hlast_er[i-1]\<close>, and those
  of lines 473 and 474 fill \<^verbatim>\<open>h_k[i]\<close> block after block, one block for each cell
  \<open>l\<close>; both are written as the concatenation of the blocks.
\<close>

definition cir_order ::
  "nat \<Rightarrow> (nat \<Rightarrow> real \<times> real) \<Rightarrow> (nat \<Rightarrow> real \<times> real) \<Rightarrow> (nat \<Rightarrow> nat \<Rightarrow> real) \<Rightarrow>
     (nat \<Rightarrow> nat \<Rightarrow> real) \<Rightarrow> real \<times> real \<Rightarrow> nat \<Rightarrow> arr list \<times> arr list \<Rightarrow> arr list \<times> arr list" where
  "cir_order no_cells se er dP dis h0 i st =
     (case st of (h_k, hlast_er) \<Rightarrow>
        if i = 0 then (h_k @ [[h0]], hlast_er @ [[(0, 0)]])
        else if i = 1 then
          (h_k @ [map (\<lambda>j. (fst (se j) * fst (er j), snd (se j) + snd (er j))) [0..<no_cells]],
           hlast_er @ [map er [0..<no_cells]])
        else
          let prev = hlast_er ! (i - 1);
              cur = concat (map (\<lambda>j. let index_dpij = j mod no_cells
                                       in map (\<lambda>c. (fst (prev ! j) * dP index_dpij c,
                                                     snd (prev ! j) + dis index_dpij c / SPEED_OF_LIGHT))
                                              [0..<no_cells])
                                [0..<length prev]);
              len_last = length cur;
              hk_i = concat (map (\<lambda>l. map (\<lambda>m. (fst (cur ! m) * fst (se l),
                                                   snd (se l) + snd (cur ! m)))
                                            (strided l len_last no_cells))
                                 [0..<no_cells])
          in (h_k @ [hk_i], hlast_er @ [cur]))"

text \<open>
  \<^verbatim>\<open>compute_cir\<close>. The arguments \<^verbatim>\<open>no_xtick\<close>, \<^verbatim>\<open>no_ytick\<close>, \<^verbatim>\<open>no_ztick\<close>
  and \<^verbatim>\<open>init_index\<close> are not used by the source and are left out.
\<close>

definition compute_cir ::
  "nat \<Rightarrow> position \<Rightarrow> position \<Rightarrow> vec list \<Rightarrow> real list \<Rightarrow> params \<Rightarrow> real \<Rightarrow> real \<Rightarrow> real \<Rightarrow>
     real \<Rightarrow> real \<Rightarrow> real \<Rightarrow> nat \<Rightarrow> error + arr list" where
  "compute_cir m tx_pos rx_pos points wall_label parameters x_lim y_lim z_lim a_r rho delta_A k_reflec =
     (let no_cells = length points
      in bnd (py_truediv_r (2 * x_lim * y_lim + 2 * x_lim * z_lim + 2 * y_lim * z_lim)
                           (delta_A * of_nat no_cells)) (\<lambda>area_factor.
         bnd (np_take wall_label tx_pos) (\<lambda>tx_wall.
         bnd (np_take wall_label rx_pos) (\<lambda>rx_wall.
         let tx_index_point = index_point tx_pos points;
             rx_index_point = index_point rx_pos points
         in bnd (read_local tx_index_point) (\<lambda>tx.
            bnd (read_local rx_index_point) (\<lambda>rx.
            let h0 = (tx_power m parameters tx rx * rx_wall_factor a_r parameters rx tx,
                      distance parameters tx rx / SPEED_OF_LIGHT)
            in Inr (fst (fold (cir_order no_cells
                                 (h0_se area_factor rho delta_A m parameters tx)
                                 (h0_er a_r parameters rx)
                                 (dP_ij rho delta_A parameters) (distance parameters) h0)
                              [0..<k_reflec + 1] ([], [])))))))))"

subsection \<open>Notions used to state and prove the histogram properties\<close>

text \<open>
  The row that numpy reaches for an index \<open>idx\<close> with \<open>- n \<le> idx < n\<close>, and the array
  after one and after several executions of line 533.
\<close>

definition bin_of :: "nat \<Rightarrow> int \<Rightarrow> nat" where
  "bin_of n idx = nat (idx mod int n)"

definition add_power :: "real list list \<Rightarrow> nat \<Rightarrow> nat \<Rightarrow> real \<Rightarrow> real list list" where
  "add_power hist b i p = hist[b := (hist ! b)[i := hist ! b ! i + p]]"

definition acc_step :: "arr \<Rightarrow> nat \<Rightarrow> nat \<Rightarrow> nat \<Rightarrow> real list list \<Rightarrow> real list list" where
  "acc_step a n i j hist = add_power hist (bin_of n (py_int_r (snd (a ! j)))) i (fst (a ! j))"

text \<open>
  The bucket index of a record, \<open>floor((delay - delay_LOS) / TIME_RESOLUTION)\<close>: lines
  529 and 530 taken together; \<open>binned\<close> is an array after these two lines.
\<close>

definition bucket :: "real \<Rightarrow> real \<Rightarrow> int" where
  "bucket delay_los d = \<lfloor>(d - delay_los) / TIME_RESOLUTION\<rfloor>"

definition binned :: "real \<Rightarrow> arr \<Rightarrow> arr" where
  "binned delay_los a = map (\<lambda>(p, d). (p, of_int (bucket delay_los d))) a"

text \<open>
  The shape in which \<^verbatim>\<open>compute_cir\<close> hands its result to \<^verbatim>\<open>create_histograms\<close>:
  \<^verbatim>\<open>h_k\<close> holds at least \<open>k_reflec + 1\<close> arrays, these are different objects of the
  store, and the array of order \<open>i\<close> has \<open>no_cells ^ i\<close> rows.
\<close>

definition wf_input :: "store \<Rightarrow> nat list \<Rightarrow> nat \<Rightarrow> nat \<Rightarrow> bool" where
  "wf_input s h_k k n \<longleftrightarrow>
     k < length h_k \<and> distinct (take (k + 1) h_k)
     \<and> (\<forall>i\<le>k. h_k ! i < length s \<and> length (s ! (h_k ! i)) = n ^ i)"

text \<open>
  The power that the records of one order put into bin \<open>b\<close>; an order whose bucket
  indices numpy accepts; and the invariant of the loop over the orders, \<open>i0\<close> orders
  being done: which arrays of the store are rewritten, and what the histogram holds.
\<close>

definition binsum :: "real \<Rightarrow> nat \<Rightarrow> arr \<Rightarrow> real" where
  "binsum dl b a = sum_list (map fst (filter (\<lambda>(p, d). bin_of BINS_HIST (bucket dl d) = b) a))"

definition order_ok :: "real \<Rightarrow> arr \<Rightarrow> bool" where
  "order_ok dl a \<longleftrightarrow>
     (\<forall>(p, d)\<in>set a. - int BINS_HIST \<le> bucket dl d \<and> bucket dl d < int BINS_HIST)"

definition hinv :: "store \<Rightarrow> nat list \<Rightarrow> real \<Rightarrow> nat \<Rightarrow> nat \<Rightarrow> hstate \<Rightarrow> bool" where
  "hinv s0 h_k dl k i0 st \<longleftrightarrow>
     length (hk_aux st) = i0 \<and> length (h_power st) = k + 1
     \<and> length (hist_power_time st) = BINS_HIST
     \<and> (\<forall>b<BINS_HIST. length (hist_power_time st ! b) = k + 1)
     \<and> length s0 \<le> length (heap st)
     \<and> (\<forall>i\<le>k. heap st ! (h_k ! i)
                 = (if i < i0 then binned dl (s0 ! (h_k ! i)) else s0 ! (h_k ! i)))
     \<and> (\<forall>i<i0. h_power st ! i = sum_list (map fst (s0 ! (h_k ! i))))
     \<and> (\<forall>b<BINS_HIST. \<forall>i\<le>k. hist_power_time st ! b ! i
                 = (if i < i0 then binsum dl b (s0 ! (h_k ! i)) else 0))"

text \<open>Line 510: \<^verbatim>\<open>delay_los = h_k[0][0,1]\<close>.\<close>

definition delay_los_of :: "store \<Rightarrow> nat list \<Rightarrow> real" where
  "delay_los_of s h_k = snd (s ! (h_k ! 0) ! 0)"

text \<open>
  Two inputs with \<open>k_reflec = 1\<close> and one cell: the order-1 record has the bucket index
  3 in the first; in the second it comes one second after the direct record, which is
  the bucket index \<open>5 * 10 ^ 9\<close>.
\<close>

definition hist_example :: store where
  "hist_example = [[(1, 5)], [(1 / 2, 5 + 3 * TIME_RESOLUTION)]]"

definition hist_overflow :: store where
  "hist_overflow = [[(1, 5)], [(1 / 2, 6)]]"

subsection \<open>Notions used to state and prove the tessellation properties\<close>

text \<open>
  An array after a loop has written \<open>p 0, ..., p (n - 1)\<close> from position \<open>c0\<close> on, and
  after two nested loops have written \<open>p j i\<close> at position \<open>j * ni + i\<close>.
\<close>

definition fill_from :: "(nat \<Rightarrow> 'a) \<Rightarrow> nat \<Rightarrow> nat \<Rightarrow> 'a list \<Rightarrow> 'a list" where
  "fill_from p c0 n a =
     map (\<lambda>k. if c0 \<le> k \<and> k < c0 + n then p (k - c0) else a ! k) [0..<length a]"

definition fill_grid :: "(nat \<Rightarrow> nat \<Rightarrow> 'a) \<Rightarrow> nat \<Rightarrow> nat \<Rightarrow> 'a list \<Rightarrow> 'a list" where
  "fill_grid p no ni a =
     map (\<lambda>k. if k < no * ni then p (k div ni) (k mod ni) else a ! k) [0..<length a]"

text \<open>
  A column that lies on the wall its label names, strictly inside the wall's rectangle;
  and the rooms and scale factors for which the tessellation is meant.
\<close>

definition on_wall :: "rat \<Rightarrow> rat \<Rightarrow> rat \<Rightarrow> column \<Rightarrow> bool" where
  "on_wall x_lim y_lim z_lim c =
     (case c of (x, y, z, w) \<Rightarrow>
        (w = 0 \<and> z = z_lim \<and> 0 < x \<and> x < x_lim \<and> 0 < y \<and> y < y_lim)
      \<or> (w = 5 \<and> z = 0 \<and> 0 < x \<and> x < x_lim \<and> 0 < y \<and> y < y_lim)
      \<or> (w = 1 \<and> y = 0 \<and> 0 < x \<and> x < x_lim \<and> 0 < z \<and> z < z_lim)
      \<or> (w = 3 \<and> y = y_lim \<and> 0 < x \<and> x < x_lim \<and> 0 < z \<and> z < z_lim)
      \<or> (w = 2 \<and> x = 0 \<and> 0 < y \<and> y < y_lim \<and> 0 < z \<and> z < z_lim)
      \<or> (w = 4 \<and> x = x_lim \<and> 0 < y \<and> y < y_lim \<and> 0 < z \<and> z < z_lim))"

definition valid_room :: "rat \<Rightarrow> rat \<Rightarrow> rat \<Rightarrow> rat \<Rightarrow> bool" where
  "valid_room x_lim y_lim z_lim scale_factor \<longleftrightarrow>
     0 < x_lim \<and> 0 < y_lim \<and> 0 < z_lim \<and> 0 < scale_factor \<and> scale_factor \<le> 1"

subsection \<open>Notions used to state and prove the properties of the parameters\<close>

text \<open>
  The wall label and the coordinates of a column; the invariant of the two matrices;
  and the cell sets on which \<^verbatim>\<open>make_parameters\<close> raises nothing: \<open>n\<close> columns whose
  labels numpy accepts as indices of \<^verbatim>\<open>NORMAL_VECTOR_WALL\<close>, and no two columns of
  different walls at the same point.
\<close>

definition label :: "rcolumn \<Rightarrow> real" where
  "label c = (case c of (x, y, z, w) \<Rightarrow> w)"

definition xyz :: "rcolumn \<Rightarrow> vec" where
  "xyz c = (case c of (x, y, z, w) \<Rightarrow> (x, y, z))"

definition pinv :: "rcolumn list \<Rightarrow> params \<Rightarrow> bool" where
  "pinv ap P \<longleftrightarrow>
     (\<forall>i j. distance P i j = distance P j i)
     \<and> (\<forall>i j. label (ap ! i) = label (ap ! j) \<longrightarrow> distance P i j = 0 \<and> cos_angle P i j = 0)
     \<and> (\<forall>i j. - 1 \<le> cos_angle P i j \<and> cos_angle P i j \<le> 1)"

definition cells_ok :: "rcolumn list \<Rightarrow> nat \<Rightarrow> bool" where
  "cells_ok ap n \<longleftrightarrow>
     n \<le> length ap
     \<and> (\<forall>i<n. - 6 \<le> py_int_r (label (ap ! i)) \<and> py_int_r (label (ap ! i)) < 6)
     \<and> (\<forall>i<n. \<forall>j<n. label (ap ! i) \<noteq> label (ap ! j) \<longrightarrow> xyz (ap ! i) \<noteq> xyz (ap ! j))"

subsection \<open>Example rooms\<close>

text \<open>
  The arguments \<^verbatim>\<open>array_points[0:3,:]\<close> and \<^verbatim>\<open>array_points[3,:]\<close> that the
  repository's main passes to \<^verbatim>\<open>compute_cir\<close>.
\<close>

definition points_of :: "column list \<Rightarrow> vec list" where
  "points_of ap = map (\<lambda>c. xyz (real_column c)) ap"

definition labels_of :: "column list \<Rightarrow> real list" where
  "labels_of ap = map (\<lambda>c. label (real_column c)) ap"

text \<open>
  The cells and the parameters of the room 2 x 2 x 2 with the scale factor 1, and the
  cells of the room 1 x 1 x 1 with the scale factor 1: one cell on each wall.
\<close>

definition cube_cells :: "column list" where
  "cube_cells = [(1, 1, 2, 0), (1, 0, 1, 1), (0, 1, 1, 2), (1, 2, 1, 3), (2, 1, 1, 4), (1, 1, 0, 5)]"

definition cube_params :: params where
  "cube_params =
     (case make_parameters (map real_column cube_cells) 2 2 2 1 1 1 of
        Inr P \<Rightarrow> P
      | Inl e \<Rightarrow> \<lparr> distance = (\<lambda>i j. 0), cos_angle = (\<lambda>i j. 0) \<rparr>)"

definition unit_cells :: "column list" where
  "unit_cells = [(1 / 2, 1 / 2, 1, 0), (1 / 2, 0, 1 / 2, 1), (0, 1 / 2, 1 / 2, 2),
                 (1 / 2, 1, 1 / 2, 3), (1, 1 / 2, 1 / 2, 4), (1 / 2, 1 / 2, 0, 5)]"

section \<open>Verification\<close>

subsection \<open>Tessellation\<close>

lemma bnd_Inr [simp]: "bnd (Inr v) f = f v"
  by (simp add: bnd_def)

lemma bnd_Inl [simp]: "bnd (Inl e) f = Inl e"
  by (simp add: bnd_def)

lemma py_int_of_int [simp]: "py_int (of_int k) = k"
  by (simp add: py_int_def)

lemma lcm3_common_multiple:
  assumes "0 < a" "0 < b" "0 < c"
  shows "\<exists>L. lcm3 a b c = Inr L \<and> 0 < L \<and> a dvd L \<and> b dvd L \<and> c dvd L"
proof -
  define g where "g = gcd c (gcd a b)"
  have gpos: "0 < g" using assms by (simp add: g_def)
  have ga: "g dvd a" and gb: "g dvd b"
    unfolding g_def by (meson gcd_dvd1 gcd_dvd2 dvd_trans)+
  obtain a' where a': "a = g * a'" using ga by (auto simp: dvd_def)
  obtain b' where b': "b = g * b'" using gb by (auto simp: dvd_def)
  have abs_eq: "\<bar>a * b * c\<bar> = a * b * c" using assms by simp
  have q1: "a * b * c div g = a' * b * c"
    using gpos by (simp add: a' mult.assoc)
  have q2: "a * b * c div g = a * b' * c"
  proof -
    have "a * b * c = g * (a * b' * c)" by (simp add: b' algebra_simps)
    moreover have "g * (a * b' * c) div g = a * b' * c" using gpos by simp
    ultimately show ?thesis by (simp only:)
  qed
  have val: "lcm3 a b c = Inr (a * b * c div g)"
    using gpos by (simp add: lcm3_def g_def [symmetric] abs_eq Let_def)
  have a'pos: "0 < a'" using assms(1) gpos a' by (simp add: zero_less_mult_iff)
  have pos: "0 < a * b * c div g" using a'pos assms by (simp add: q1)
  have "a dvd a * b * c div g" unfolding q2 by simp
  moreover have "b dvd a * b * c div g" unfolding q1 by simp
  moreover have "c dvd a * b * c div g" unfolding q1 by simp
  ultimately show ?thesis using val pos by blast
qed

lemma tick_exact:
  assumes q: "quotient_of x = (n, d)" and dv: "d dvd L"
  shows "py_truediv (of_int (L * n)) (of_int d) = Inr (of_int ((L div d) * n))"
    and "x * of_int L = of_int ((L div d) * n)"
proof -
  have dpos: "0 < d" using quotient_of_denom_pos [OF q] .
  obtain k where k: "L = d * k" using dv by (auto simp: dvd_def)
  have kd: "L div d = k" using dpos by (simp add: k)
  have "(of_int (L * n) :: rat) / of_int d = of_int (k * n)"
    using dpos by (simp add: k)
  then show "py_truediv (of_int (L * n)) (of_int d) = Inr (of_int ((L div d) * n))"
    using dpos by (simp add: py_truediv_def kd)
  have "x = of_int n / of_int d" using quotient_of_div [OF q] .
  then show "x * of_int L = of_int ((L div d) * n)"
    using dpos by (simp add: kd k)
qed

lemma delta_Lmax_value:
  assumes "0 < x_lim" "0 < y_lim" "0 < z_lim"
  shows "\<exists>L nx ny nz. 0 < L \<and> 0 < nx \<and> 0 < ny \<and> 0 < nz
           \<and> x_lim * of_int L = of_int nx \<and> y_lim * of_int L = of_int ny
           \<and> z_lim * of_int L = of_int nz
           \<and> delta_Lmax x_lim y_lim z_lim = Inr (of_int (gcd nz (gcd nx ny)) / of_int L)"
proof -
  obtain xn xd where qx: "quotient_of x_lim = (xn, xd)" by (cases "quotient_of x_lim")
  obtain yn yd where qy: "quotient_of y_lim = (yn, yd)" by (cases "quotient_of y_lim")
  obtain zn zd where qz: "quotient_of z_lim = (zn, zd)" by (cases "quotient_of z_lim")
  have dpos: "0 < xd" "0 < yd" "0 < zd"
    using qx qy qz by (auto dest: quotient_of_denom_pos)
  obtain L where L: "lcm3 xd yd zd = Inr L" "0 < L" "xd dvd L" "yd dvd L" "zd dvd L"
    using lcm3_common_multiple [OF dpos] by blast
  define nx where "nx = (L div xd) * xn"
  define ny where "ny = (L div yd) * yn"
  define nz where "nz = (L div zd) * zn"
  have ex: "x_lim * of_int L = of_int nx" "y_lim * of_int L = of_int ny"
    "z_lim * of_int L = of_int nz"
    using tick_exact(2) [OF qx L(3)] tick_exact(2) [OF qy L(4)] tick_exact(2) [OF qz L(5)]
    by (simp_all add: nx_def ny_def nz_def)
  have Lr: "(0::rat) < of_int L" using L(2) by simp
  have "(0::rat) < of_int nx" using assms(1) Lr ex(1) [symmetric] by simp
  then have nxpos: "0 < nx" by simp
  have "(0::rat) < of_int ny" using assms(2) Lr ex(2) [symmetric] by simp
  then have nypos: "0 < ny" by simp
  have "(0::rat) < of_int nz" using assms(3) Lr ex(3) [symmetric] by simp
  then have nzpos: "0 < nz" by simp
  have tx: "py_truediv (of_int (L * xn)) (of_int xd) = Inr (of_int nx)"
    using tick_exact(1) [OF qx L(3)] by (simp only: nx_def)
  have ty: "py_truediv (of_int (L * yn)) (of_int yd) = Inr (of_int ny)"
    using tick_exact(1) [OF qy L(4)] by (simp only: ny_def)
  have tz: "py_truediv (of_int (L * zn)) (of_int zd) = Inr (of_int nz)"
    using tick_exact(1) [OF qz L(5)] by (simp only: nz_def)
  have last: "py_truediv (of_int (gcd nz (gcd nx ny))) (of_int L)
                = Inr (of_int (gcd nz (gcd nx ny)) / of_int L)"
    using L(2) by (simp add: py_truediv_def)
  have "delta_Lmax x_lim y_lim z_lim = Inr (of_int (gcd nz (gcd nx ny)) / of_int L)"
    by (simp only: delta_Lmax_def qx qy qz prod.case L(1) bnd_Inr tx ty tz Let_def
        py_int_of_int last)
  then show ?thesis using L(2) nxpos nypos nzpos ex by blast
qed

lemma quot_by_gcd:
  assumes "0 < L" "0 < n" "g dvd n" "0 < g" "x * of_int L = (of_int n :: rat)"
  shows "\<exists>k::int. 0 < k \<and> x / (of_int g / of_int L) = of_int k"
proof -
  obtain k where k: "n = g * k" using assms(3) by (auto simp: dvd_def)
  have kpos: "0 < k" using assms(2,4) k by (simp add: zero_less_mult_iff)
  have "x / (of_int g / of_int L) = x * of_int L / of_int g" by simp
  also have "\<dots> = of_int k" using assms(4) by (simp add: assms(5) k)
  finally show ?thesis using kpos by blast
qed

text \<open>
  In exact arithmetic the construction of lines 132 to 151 does what it is meant to do:
  for a room with three positive dimensions, \<open>delta_Lmax\<close> (the gcd of the tick counts
  divided by the common multiple of the denominators) is computed without error, is
  positive, and divides each dimension exactly.
\<close>

lemma delta_Lmax_divides:
  assumes "0 < x_lim" "0 < y_lim" "0 < z_lim"
  shows "\<exists>d kx ky kz. delta_Lmax x_lim y_lim z_lim = Inr d \<and> 0 < d
           \<and> 0 < kx \<and> 0 < ky \<and> 0 < kz
           \<and> x_lim / d = of_int kx \<and> y_lim / d = of_int ky \<and> z_lim / d = of_int kz"
proof -
  obtain L nx ny nz where v: "0 < L" "0 < nx" "0 < ny" "0 < nz"
    "x_lim * of_int L = of_int nx" "y_lim * of_int L = of_int ny"
    "z_lim * of_int L = of_int nz"
    "delta_Lmax x_lim y_lim z_lim = Inr (of_int (gcd nz (gcd nx ny)) / of_int L)"
    using delta_Lmax_value [OF assms] by blast
  define g where "g = gcd nz (gcd nx ny)"
  have gpos: "0 < g" using v(2) by (simp add: g_def)
  have gd: "g dvd nx" "g dvd ny" "g dvd nz"
    unfolding g_def by (meson gcd_dvd1 gcd_dvd2 dvd_trans)+
  obtain kx :: int where kx: "0 < kx" "x_lim / (of_int g / of_int L) = of_int kx"
    using quot_by_gcd [OF v(1) v(2) gd(1) gpos v(5)] by blast
  obtain ky :: int where ky: "0 < ky" "y_lim / (of_int g / of_int L) = of_int ky"
    using quot_by_gcd [OF v(1) v(3) gd(2) gpos v(6)] by blast
  obtain kz :: int where kz: "0 < kz" "z_lim / (of_int g / of_int L) = of_int kz"
    using quot_by_gcd [OF v(1) v(4) gd(3) gpos v(7)] by blast
  have dpos: "(0::rat) < of_int g / of_int L" using gpos v(1) by simp
  show ?thesis using v(8) dpos kx ky kz unfolding g_def [symmetric] by blast
qed

lemma quotient_of_numeral_div [simp]:
  "quotient_of (numeral a / numeral b) = Rat.normalize (numeral a, numeral b)"
  using quotient_of_Fract [of "numeral a" "numeral b"] by (simp add: Fract_of_int_quotient)

lemma quotient_of_one_div [simp]:
  "quotient_of (1 / numeral b) = Rat.normalize (1, numeral b)"
  using quotient_of_Fract [of 1 "numeral b"] by (simp add: Fract_of_int_quotient)

lemma delta_Lmax_example: "delta_Lmax (1/2) (3/4) (5/6) = Inr (1/12)"
  by (simp add: delta_Lmax_def Rat.normalize_def lcm3_def py_truediv_def py_int_def Let_def
      gcd_non_0_int)

text \<open>
  Claim C5 (the helper \<^verbatim>\<open>lcm\<close> returns the least common multiple of its three
  arguments). On the denominators 2, 2 and 2, which the room 0.5 x 0.5 x 0.5 gives, the
  source returns \<open>2 * 2 * 2 div 2 = 4\<close>, whereas the least common multiple is 2: dividing
  the product by the gcd of all three numbers gives a common multiple, not the least one.
\<close>

theorem lcm3_not_least: "lcm3 2 2 2 = Inr 4 \<and> lcm (2::int) (lcm 2 2) = 2"
  by (simp add: lcm3_def)

lemma delta_Lmax_cube: "delta_Lmax 2 2 2 = Inr 2"
  by (simp add: delta_Lmax_def lcm3_def py_truediv_def py_int_def Let_def)

text \<open>
  Claim C1 (on each of the six walls consecutive centroids are \<open>delta_L\<close> apart along
  both in-wall axes, so that cells of one wall do not overlap). For the room 2 x 2 x 2
  and the scale factor 1/2 the cell edge \<open>delta_L\<close> is 1 and each wall has 2 x 2 cells.
  On walls 0, 1, 3 and 5 the centroids are at 1/2 and 3/2 along both axes. On walls 2
  and 4 the y coordinates are 1/2 and 1, half a cell apart: lines 229 and 234 add
  \<^verbatim>\<open>i*delta_L/2\<close> where lines 198 and 203 add \<^verbatim>\<open>i*delta_L\<close>. The cells centred
  at y = 1/2 and y = 1 overlap, and the strip from y = 3/2 to y = 2 holds no cell.
\<close>

theorem tessellation_side_walls_half_step:
  "tessellation 2 2 2 (1/2) =
Inr \<lparr>tess_array_points =
        [(1 / 2, 1 / 2, 2, 0), (1 / 2, 3 / 2, 2, 0), (3 / 2, 1 / 2, 2, 0),
         (3 / 2, 3 / 2, 2, 0), (3 / 2, 0, 3 / 2, 1), (1 / 2, 0, 3 / 2, 1),
         (3 / 2, 0, 1 / 2, 1), (1 / 2, 0, 1 / 2, 1), (0, 1 / 2, 3 / 2, 2),
         (0, 1, 3 / 2, 2), (0, 1 / 2, 1 / 2, 2), (0, 1, 1 / 2, 2),
         (3 / 2, 2, 3 / 2, 3), (1 / 2, 2, 3 / 2, 3), (3 / 2, 2, 1 / 2, 3),
         (1 / 2, 2, 1 / 2, 3), (2, 1 / 2, 3 / 2, 4), (2, 1, 3 / 2, 4),
         (2, 1 / 2, 1 / 2, 4), (2, 1, 1 / 2, 4), (1 / 2, 1 / 2, 0, 5),
         (1 / 2, 3 / 2, 0, 5), (3 / 2, 1 / 2, 0, 5), (3 / 2, 3 / 2, 0, 5)],
        tess_no_xtick = 2, tess_no_ytick = 2, tess_no_ztick = 2,
        tess_init_index = [0, 4, 8, 12, 16, 20], tess_delta_A = 1 / 200,
        tess_no_points = 24\<rparr>"
  by (simp add: tessellation_def delta_Lmax_cube py_truediv_def py_int_def np_zeros4_def Let_def
      init_index_of_def fill_walls_def py_range_def eval_nat_numeral)

lemma fill_from_0: "fill_from p c0 0 a = a"
  by (rule nth_equalityI) (auto simp: fill_from_def)

lemma fill_from_Suc: "(fill_from p c0 n a)[c0 + n := p n] = fill_from p c0 (Suc n) a"
proof (rule nth_equalityI)
  show "length ((fill_from p c0 n a)[c0 + n := p n]) = length (fill_from p c0 (Suc n) a)"
    by (simp add: fill_from_def)
next
  fix k assume "k < length ((fill_from p c0 n a)[c0 + n := p n])"
  then have k: "k < length a" by (simp add: fill_from_def)
  show "(fill_from p c0 n a)[c0 + n := p n] ! k = fill_from p c0 (Suc n) a ! k"
  proof (cases "k = c0 + n")
    case True
    then show ?thesis using k by (simp add: fill_from_def)
  next
    case False
    then have "(fill_from p c0 n a)[c0 + n := p n] ! k = fill_from p c0 n a ! k" by simp
    also have "\<dots> = fill_from p c0 (Suc n) a ! k"
      using k False by (auto simp: fill_from_def)
    finally show ?thesis .
  qed
qed

lemma inner_fill:
  "fold (\<lambda>i (a, b, c). (a[c := pa i], b[c := pb i], c + 1)) [0..<ni] (a, b, c0)
     = (fill_from pa c0 ni a, fill_from pb c0 ni b, c0 + ni)"
proof (induction ni)
  case 0
  then show ?case by (simp add: fill_from_0)
next
  case (Suc ni)
  have "fold (\<lambda>i (a, b, c). (a[c := pa i], b[c := pb i], c + 1)) [0..<Suc ni] (a, b, c0)
      = ((fill_from pa c0 ni a)[c0 + ni := pa ni], (fill_from pb c0 ni b)[c0 + ni := pb ni],
         c0 + ni + 1)"
    using Suc.IH by simp
  then show ?case by (simp only: fill_from_Suc) simp
qed

lemma fill_grid_0: "fill_grid p 0 ni a = a"
  by (rule nth_equalityI) (auto simp: fill_grid_def)

lemma div_mod_block:
  assumes "no * ni \<le> k" "k < no * ni + ni"
  shows "k div ni = no" "k mod ni = k - no * (ni::nat)"
proof -
  obtain t where t: "k = no * ni + t" using assms(1) le_Suc_ex by blast
  then have tl: "t < ni" using assms(2) by simp
  show "k div ni = no" using t tl by simp
  show "k mod ni = k - no * ni" using t tl by simp
qed

lemma fill_grid_Suc:
  "fill_from (p no) (no * ni) ni (fill_grid p no ni a) = fill_grid p (Suc no) ni a"
proof (rule nth_equalityI)
  show "length (fill_from (p no) (no * ni) ni (fill_grid p no ni a))
          = length (fill_grid p (Suc no) ni a)"
    by (simp add: fill_from_def fill_grid_def)
next
  fix k assume "k < length (fill_from (p no) (no * ni) ni (fill_grid p no ni a))"
  then have k: "k < length a" by (simp add: fill_from_def fill_grid_def)
  consider (old) "k < no * ni" | (new) "no * ni \<le> k" "k < no * ni + ni" | (rest) "no * ni + ni \<le> k"
    by linarith
  then show "fill_from (p no) (no * ni) ni (fill_grid p no ni a) ! k = fill_grid p (Suc no) ni a ! k"
  proof cases
    case old
    then show ?thesis using k by (simp add: fill_from_def fill_grid_def)
  next
    case new
    then show ?thesis using k div_mod_block [OF new] by (simp add: fill_from_def fill_grid_def)
  next
    case rest
    then show ?thesis using k by (simp add: fill_from_def fill_grid_def)
  qed
qed

lemma outer_fill:
  "fold (\<lambda>j. fold (\<lambda>i (a, b, c). (a[c := pa j i], b[c := pb j i], c + 1)) [0..<ni])
        [0..<no] (a, b, 0)
     = (fill_grid pa no ni a, fill_grid pb no ni b, no * ni)"
proof (induction no)
  case 0
  then show ?case by (simp add: fill_grid_0)
next
  case (Suc no)
  have "fold (\<lambda>j. fold (\<lambda>i (a, b, c). (a[c := pa j i], b[c := pb j i], c + 1)) [0..<ni])
        [0..<Suc no] (a, b, 0)
      = fold (\<lambda>i (a, b, c). (a[c := pa no i], b[c := pb no i], c + 1)) [0..<ni]
          (fill_grid pa no ni a, fill_grid pb no ni b, no * ni)"
    using Suc.IH by simp
  also have "\<dots> = (fill_from (pa no) (no * ni) ni (fill_grid pa no ni a),
                    fill_from (pb no) (no * ni) ni (fill_grid pb no ni b), no * ni + ni)"
    by (rule inner_fill)
  finally show ?case by (simp only: fill_grid_Suc) simp
qed

lemma set_fill_grid:
  assumes "length a = no * ni" "c \<in> set (fill_grid p no ni a)"
  shows "\<exists>j<no. \<exists>i<ni. c = p j i"
proof -
  obtain k where k: "k < length a" "fill_grid p no ni a ! k = c"
    using assms(2) by (auto simp: in_set_conv_nth fill_grid_def)
  have kl: "k < no * ni" using k(1) assms(1) by simp
  then have "0 < ni" by (cases ni) auto
  then have m: "k mod ni < ni" by simp
  have d: "k div ni < no" using kl by (simp add: less_mult_imp_div_less)
  have "c = p (k div ni) (k mod ni)" using k kl by (simp add: fill_grid_def)
  then show ?thesis using m d by blast
qed

lemma fill_walls_eq:
  "fill_walls pa pb n_outer n_inner ewa ewb
     = (fill_grid pa (nat n_outer) (nat n_inner) ewa, fill_grid pb (nat n_outer) (nat n_inner) ewb)"
  unfolding fill_walls_def py_range_def outer_fill by simp

lemma tessellation_unfold:
  assumes d: "delta_Lmax x_lim y_lim z_lim = Inr d" and nz: "d * s \<noteq> 0"
    and nx: "0 \<le> py_int (x_lim / (d * s))" and ny: "0 \<le> py_int (y_lim / (d * s))"
    and nzt: "0 \<le> py_int (z_lim / (d * s))"
  shows "tessellation x_lim y_lim z_lim s =
     (let delta_L = d * s;
          no_xtick = py_int (x_lim / delta_L); no_ytick = py_int (y_lim / delta_L);
          no_ztick = py_int (z_lim / delta_L);
          z0 = (\<lambda>n. replicate (nat n) (0::rat, 0::rat, 0::rat, 0::rat))
      in Inr \<lparr> tess_array_points =
                  fill_grid (\<lambda>j i. (delta_L / 2 + of_nat j * delta_L,
                                     delta_L / 2 + of_nat i * delta_L, z_lim, 0))
                            (nat no_xtick) (nat no_ytick) (z0 (no_xtick * no_ytick))
                  @ fill_grid (\<lambda>j i. (x_lim - delta_L / 2 - of_nat i * delta_L, 0,
                                     z_lim - delta_L / 2 - of_nat j * delta_L, 1))
                            (nat no_ztick) (nat no_xtick) (z0 (no_ztick * no_xtick))
                  @ fill_grid (\<lambda>j i. (0, delta_L / 2 + of_nat i * delta_L / 2,
                                     z_lim - delta_L / 2 - of_nat j * delta_L, 2))
                            (nat no_ztick) (nat no_ytick) (z0 (no_ztick * no_ytick))
                  @ fill_grid (\<lambda>j i. (x_lim - delta_L / 2 - of_nat i * delta_L, y_lim,
                                     z_lim - delta_L / 2 - of_nat j * delta_L, 3))
                            (nat no_ztick) (nat no_xtick) (z0 (no_ztick * no_xtick))
                  @ fill_grid (\<lambda>j i. (x_lim, delta_L / 2 + of_nat i * delta_L / 2,
                                     z_lim - delta_L / 2 - of_nat j * delta_L, 4))
                            (nat no_ztick) (nat no_ytick) (z0 (no_ztick * no_ytick))
                  @ fill_grid (\<lambda>j i. (delta_L / 2 + of_nat j * delta_L,
                                     delta_L / 2 + of_nat i * delta_L, 0, 5))
                            (nat no_xtick) (nat no_ytick) (z0 (no_xtick * no_ytick)),
               tess_no_xtick = no_xtick, tess_no_ytick = no_ytick, tess_no_ztick = no_ztick,
               tess_init_index =
                 init_index_of [z0 (no_xtick * no_ytick), z0 (no_ztick * no_xtick),
                                z0 (no_ztick * no_ytick), z0 (no_ztick * no_xtick),
                                z0 (no_ztick * no_ytick), z0 (no_xtick * no_ytick)],
               tess_delta_A = delta_L ^ 2 / 200,
               tess_no_points = 2 * no_xtick * no_ytick + 2 * no_ztick * no_xtick
                                  + 2 * no_ztick * no_ytick \<rparr>)"
proof -
  have p: "0 \<le> py_int (x_lim / (d * s)) * py_int (y_lim / (d * s))"
    "0 \<le> py_int (z_lim / (d * s)) * py_int (x_lim / (d * s))"
    "0 \<le> py_int (z_lim / (d * s)) * py_int (y_lim / (d * s))"
    using nx ny nzt by simp_all
  have z: "\<And>n. 0 \<le> n \<Longrightarrow> np_zeros4 n = Inr (replicate (nat n) (0, 0, 0, 0))"
    by (simp add: np_zeros4_def)
  show ?thesis
    unfolding tessellation_def d bnd_Inr Let_def py_truediv_def
    using nz by (simp add: z [OF p(1)] z [OF p(2)] z [OF p(3)] fill_walls_eq)
qed

lemma tick_bounds:
  assumes "0 < dL" "of_int n * dL \<le> bound" "j < nat n"
  shows "0 < dL / 2 + of_nat j * dL \<and> dL / 2 + of_nat j * dL < bound
       \<and> 0 < bound - dL / 2 - of_nat j * dL \<and> bound - dL / 2 - of_nat j * dL < bound
       \<and> 0 < dL / 2 + of_nat j * dL / 2 \<and> dL / 2 + of_nat j * dL / 2 < (bound::rat)"
proof -
  define t where "t = of_nat j * dL"
  have t0: "0 \<le> t" using assms(1) by (simp add: t_def)
  have "int j + 1 \<le> n" using assms(3) by linarith
  then have "(of_int (int j + 1) :: rat) \<le> of_int n" by (simp only: of_int_le_iff)
  then have "(of_nat j + 1 :: rat) \<le> of_int n" by simp
  then have "(of_nat j + 1) * dL \<le> of_int n * dL"
    using assms(1) by (simp add: mult_right_mono)
  then have t1: "t + dL \<le> bound" using assms(2) by (simp add: t_def algebra_simps)
  have h: "0 < dL / 2" using assms(1) by simp
  have "0 < dL / 2 + t \<and> dL / 2 + t < bound \<and> 0 < bound - dL / 2 - t \<and> bound - dL / 2 - t < bound
       \<and> 0 < dL / 2 + t / 2 \<and> dL / 2 + t / 2 < bound"
    using t0 t1 h assms(1) by auto
  then show ?thesis by (simp add: t_def)
qed

lemma tick_count:
  assumes "0 < d" "0 < s" "s \<le> 1" "0 < (k::int)" "bound / d = of_int k"
  shows "1 \<le> py_int (bound / (d * s))" and "of_int (py_int (bound / (d * s))) * (d * s) \<le> (bound::rat)"
proof -
  have ds: "0 < d * s" using assms(1,2) by simp
  have bound: "bound = of_int k * d" using assms(1,5) by (simp add: field_simps)
  have "of_int k * (d * s) \<le> of_int k * d"
    using assms(1,3,4) by (simp add: mult_left_le)
  moreover have "1 * (d * s) \<le> of_int k * (d * s)"
  proof (rule mult_right_mono)
    show "(1::rat) \<le> of_int k" using assms(4) by simp
    show "0 \<le> d * s" using ds by simp
  qed
  ultimately have "1 * (d * s) \<le> bound" unfolding bound by (rule order_trans [rotated])
  then have q1: "1 \<le> bound / (d * s)" using ds by (simp add: pos_le_divide_eq)
  then have q0: "0 \<le> bound / (d * s)" by linarith
  have pi: "py_int (bound / (d * s)) = \<lfloor>bound / (d * s)\<rfloor>" using q0 by (simp add: py_int_def)
  show "1 \<le> py_int (bound / (d * s))" unfolding pi using q1 by (simp add: le_floor_iff)
  have fl: "of_int \<lfloor>bound / (d * s)\<rfloor> \<le> bound / (d * s)" by (rule of_int_floor_le)
  have "of_int \<lfloor>bound / (d * s)\<rfloor> * (d * s) \<le> bound / (d * s) * (d * s)"
    using fl ds by (intro mult_right_mono) simp_all
  also have "\<dots> = bound"
    using assms(1,2) by simp
  finally show "of_int (py_int (bound / (d * s))) * (d * s) \<le> bound"
    unfolding pi .
qed

lemma length_fill_grid [simp]: "length (fill_grid p no ni a) = length a"
  by (simp add: fill_grid_def)

lemma set_fill_grid_zeros:
  assumes "0 \<le> n_outer" "0 \<le> n_inner"
    "c \<in> set (fill_grid p (nat n_outer) (nat n_inner) (replicate (nat (n_outer * n_inner)) z))"
  shows "\<exists>j<nat n_outer. \<exists>i<nat n_inner. c = p j i"
proof -
  have "length (replicate (nat (n_outer * n_inner)) z) = nat n_outer * nat n_inner"
    using assms(1,2) by (simp add: nat_mult_distrib)
  then show ?thesis using assms(3) by (rule set_fill_grid)
qed

lemma tessellation_cells:
  assumes "valid_room x_lim y_lim z_lim s"
  shows "\<exists>T. tessellation x_lim y_lim z_lim s = Inr T
           \<and> (\<forall>c\<in>set (tess_array_points T). on_wall x_lim y_lim z_lim c)
           \<and> 0 \<le> tess_no_points T
           \<and> length (tess_array_points T) = nat (tess_no_points T)
           \<and> tess_no_points T = 2 * tess_no_xtick T * tess_no_ytick T
                + 2 * tess_no_ztick T * tess_no_xtick T + 2 * tess_no_ztick T * tess_no_ytick T"
proof -
  have pos: "0 < x_lim" "0 < y_lim" "0 < z_lim" and s: "0 < s" "s \<le> 1"
    using assms by (simp_all add: valid_room_def)
  obtain d kx ky kz where d: "delta_Lmax x_lim y_lim z_lim = Inr d" "0 < d"
    "0 < kx" "0 < ky" "0 < (kz::int)"
    "x_lim / d = of_int kx" "y_lim / d = of_int ky" "z_lim / d = of_int kz"
    using delta_Lmax_divides [OF pos] by blast
  define dL where "dL = d * s"
  define nx where "nx = py_int (x_lim / dL)"
  define ny where "ny = py_int (y_lim / dL)"
  define nz where "nz = py_int (z_lim / dL)"
  have dLpos: "0 < dL" using d(2) s(1) by (simp add: dL_def)
  have nx: "1 \<le> nx" "of_int nx * dL \<le> x_lim"
    using tick_count [OF d(2) s d(3) d(6)] by (simp_all add: nx_def dL_def)
  have ny: "1 \<le> ny" "of_int ny * dL \<le> y_lim"
    using tick_count [OF d(2) s d(4) d(7)] by (simp_all add: ny_def dL_def)
  have nz: "1 \<le> nz" "of_int nz * dL \<le> z_lim"
    using tick_count [OF d(2) s d(5) d(8)] by (simp_all add: nz_def dL_def)
  have n0: "0 \<le> nx" "0 \<le> ny" "0 \<le> nz" using nx(1) ny(1) nz(1) by simp_all
  define z0 where "z0 = (\<lambda>n. replicate (nat n) (0::rat, 0::rat, 0::rat, 0::rat))"
  define w0 where "w0 = fill_grid (\<lambda>j i. (dL / 2 + of_nat j * dL, dL / 2 + of_nat i * dL, z_lim, 0))
                            (nat nx) (nat ny) (z0 (nx * ny))"
  define w1 where "w1 = fill_grid (\<lambda>j i. (x_lim - dL / 2 - of_nat i * dL, 0,
                                     z_lim - dL / 2 - of_nat j * dL, 1))
                            (nat nz) (nat nx) (z0 (nz * nx))"
  define w2 where "w2 = fill_grid (\<lambda>j i. (0, dL / 2 + of_nat i * dL / 2,
                                     z_lim - dL / 2 - of_nat j * dL, 2))
                            (nat nz) (nat ny) (z0 (nz * ny))"
  define w3 where "w3 = fill_grid (\<lambda>j i. (x_lim - dL / 2 - of_nat i * dL, y_lim,
                                     z_lim - dL / 2 - of_nat j * dL, 3))
                            (nat nz) (nat nx) (z0 (nz * nx))"
  define w4 where "w4 = fill_grid (\<lambda>j i. (x_lim, dL / 2 + of_nat i * dL / 2,
                                     z_lim - dL / 2 - of_nat j * dL, 4))
                            (nat nz) (nat ny) (z0 (nz * ny))"
  define w5 where "w5 = fill_grid (\<lambda>j i. (dL / 2 + of_nat j * dL, dL / 2 + of_nat i * dL, 0, 5))
                            (nat nx) (nat ny) (z0 (nx * ny))"
  define T where "T = \<lparr> tess_array_points = w0 @ w1 @ w2 @ w3 @ w4 @ w5,
               tess_no_xtick = nx, tess_no_ytick = ny, tess_no_ztick = nz,
               tess_init_index =
                 init_index_of [z0 (nx * ny), z0 (nz * nx), z0 (nz * ny), z0 (nz * nx),
                                z0 (nz * ny), z0 (nx * ny)],
               tess_delta_A = dL ^ 2 / 200,
               tess_no_points = 2 * nx * ny + 2 * nz * nx + 2 * nz * ny \<rparr>"
  have nzero: "d * s \<noteq> 0" using d(2) s(1) by simp
  have run: "tessellation x_lim y_lim z_lim s = Inr T"
    using tessellation_unfold [OF d(1) nzero] n0
    unfolding nx_def ny_def nz_def dL_def T_def w0_def w1_def w2_def w3_def w4_def w5_def z0_def
    by (simp add: Let_def)
  have c0: "on_wall x_lim y_lim z_lim c" if cm: "c \<in> set w0" for c
  proof -
    have "\<exists>j<nat nx. \<exists>i<nat ny. c = (dL / 2 + of_nat j * dL, dL / 2 + of_nat i * dL, z_lim, 0)"
      using cm unfolding w0_def z0_def by (rule set_fill_grid_zeros [OF n0(1) n0(2)])
    then obtain j i where ji: "j < nat nx" "i < nat ny"
      "c = (dL / 2 + of_nat j * dL, dL / 2 + of_nat i * dL, z_lim, 0)"
      by blast
    show ?thesis
      using tick_bounds [OF dLpos nx(2) ji(1)] tick_bounds [OF dLpos ny(2) ji(2)]
      by (simp add: ji(3) on_wall_def)
  qed
  have c5: "on_wall x_lim y_lim z_lim c" if cm: "c \<in> set w5" for c
  proof -
    have "\<exists>j<nat nx. \<exists>i<nat ny. c = (dL / 2 + of_nat j * dL, dL / 2 + of_nat i * dL, 0, 5)"
      using cm unfolding w5_def z0_def by (rule set_fill_grid_zeros [OF n0(1) n0(2)])
    then obtain j i where ji: "j < nat nx" "i < nat ny"
      "c = (dL / 2 + of_nat j * dL, dL / 2 + of_nat i * dL, 0, 5)"
      by blast
    show ?thesis
      using tick_bounds [OF dLpos nx(2) ji(1)] tick_bounds [OF dLpos ny(2) ji(2)]
      by (simp add: ji(3) on_wall_def)
  qed
  have c1: "on_wall x_lim y_lim z_lim c" if cm: "c \<in> set w1" for c
  proof -
    have "\<exists>j<nat nz. \<exists>i<nat nx. c = (x_lim - dL / 2 - of_nat i * dL, 0, z_lim - dL / 2 - of_nat j * dL, 1)"
      using cm unfolding w1_def z0_def by (rule set_fill_grid_zeros [OF n0(3) n0(1)])
    then obtain j i where ji: "j < nat nz" "i < nat nx"
      "c = (x_lim - dL / 2 - of_nat i * dL, 0, z_lim - dL / 2 - of_nat j * dL, 1)"
      by blast
    show ?thesis
      using tick_bounds [OF dLpos nz(2) ji(1)] tick_bounds [OF dLpos nx(2) ji(2)]
      by (simp add: ji(3) on_wall_def)
  qed
  have c3: "on_wall x_lim y_lim z_lim c" if cm: "c \<in> set w3" for c
  proof -
    have "\<exists>j<nat nz. \<exists>i<nat nx. c = (x_lim - dL / 2 - of_nat i * dL, y_lim, z_lim - dL / 2 - of_nat j * dL, 3)"
      using cm unfolding w3_def z0_def by (rule set_fill_grid_zeros [OF n0(3) n0(1)])
    then obtain j i where ji: "j < nat nz" "i < nat nx"
      "c = (x_lim - dL / 2 - of_nat i * dL, y_lim, z_lim - dL / 2 - of_nat j * dL, 3)"
      by blast
    show ?thesis
      using tick_bounds [OF dLpos nz(2) ji(1)] tick_bounds [OF dLpos nx(2) ji(2)]
      by (simp add: ji(3) on_wall_def)
  qed
  have c2: "on_wall x_lim y_lim z_lim c" if cm: "c \<in> set w2" for c
  proof -
    have "\<exists>j<nat nz. \<exists>i<nat ny. c = (0, dL / 2 + of_nat i * dL / 2, z_lim - dL / 2 - of_nat j * dL, 2)"
      using cm unfolding w2_def z0_def by (rule set_fill_grid_zeros [OF n0(3) n0(2)])
    then obtain j i where ji: "j < nat nz" "i < nat ny"
      "c = (0, dL / 2 + of_nat i * dL / 2, z_lim - dL / 2 - of_nat j * dL, 2)"
      by blast
    show ?thesis
      using tick_bounds [OF dLpos nz(2) ji(1)] tick_bounds [OF dLpos ny(2) ji(2)]
      by (simp add: ji(3) on_wall_def)
  qed
  have c4: "on_wall x_lim y_lim z_lim c" if cm: "c \<in> set w4" for c
  proof -
    have "\<exists>j<nat nz. \<exists>i<nat ny. c = (x_lim, dL / 2 + of_nat i * dL / 2, z_lim - dL / 2 - of_nat j * dL, 4)"
      using cm unfolding w4_def z0_def by (rule set_fill_grid_zeros [OF n0(3) n0(2)])
    then obtain j i where ji: "j < nat nz" "i < nat ny"
      "c = (x_lim, dL / 2 + of_nat i * dL / 2, z_lim - dL / 2 - of_nat j * dL, 4)"
      by blast
    show ?thesis
      using tick_bounds [OF dLpos nz(2) ji(1)] tick_bounds [OF dLpos ny(2) ji(2)]
      by (simp add: ji(3) on_wall_def)
  qed
  have cells: "\<forall>c\<in>set (tess_array_points T). on_wall x_lim y_lim z_lim c"
    using c0 c1 c2 c3 c4 c5 by (auto simp: T_def)
  have len: "length (tess_array_points T) = nat (tess_no_points T)"
    using n0 by (simp add: T_def w0_def w1_def w2_def w3_def w4_def w5_def z0_def
        nat_add_distrib nat_mult_distrib)
  have np: "0 \<le> tess_no_points T" using n0 by (simp add: T_def)
  have eq: "tess_no_points T = 2 * tess_no_xtick T * tess_no_ytick T
                + 2 * tess_no_ztick T * tess_no_xtick T + 2 * tess_no_ztick T * tess_no_ytick T"
    by (simp add: T_def)
  show ?thesis using run cells np len eq by blast
qed

subsection \<open>Tessellation in binary64 arithmetic\<close>

lemma floor_rat_numeral_div:
  "\<lfloor>(numeral a / numeral b :: rat)\<rfloor> = numeral a div numeral b"
  by (metis floor_divide_of_int_eq of_int_numeral)

lemma fl_tenth: "fl (1 / 10) = 3602879701896397 / 2 ^ 55"
  by (simp add: fl_def fl_pos_def scale2_def round_half_even_def Rat.normalize_def Let_def
      compute_floorlog)

lemma fl_dyadic_examples: "fl 2 = 2" "fl (1 / 2) = 1 / 2" "fl 1 = 1"
  by (simp_all add: fl_def fl_pos_def scale2_def round_half_even_def Rat.normalize_def Let_def
      compute_floorlog)

lemma delta_Lmax_exact_small_room:
  "delta_Lmax (123456789012 / 10 ^ 12) (123456789012 / 10 ^ 12) (123456789012 / 10 ^ 12)
     = Inr (123456789012 / 10 ^ 12)"
  by (simp add: delta_Lmax_def lcm3_def py_truediv_def py_int_def Rat.normalize_def Let_def
      gcd_non_0_int)

lemma delta_Lmax_f64_small_room:
  "delta_Lmax_f64 (123456789012 / 10 ^ 12) (123456789012 / 10 ^ 12) (123456789012 / 10 ^ 12)
     = Inr (8895999183852819 / 2 ^ 56)"
  by (simp add: delta_Lmax_f64_def int_truediv_def lcm3_def py_int_def
      fl_def fl_pos_def scale2_def round_half_even_def Rat.normalize_def Let_def
      compute_floorlog gcd_non_0_int)

lemma fl_small_room: "fl (123456789012 / 10 ^ 12) = 8895999183852818 / 2 ^ 56"
  by (simp add: fl_def fl_pos_def scale2_def round_half_even_def Rat.normalize_def Let_def
      compute_floorlog gcd_non_0_int)

lemma tick_counts_small_room:
  "tick_counts_f64 (123456789012 / 10 ^ 12) (123456789012 / 10 ^ 12) (123456789012 / 10 ^ 12) 1
     = Inr (8895999183852819 / 2 ^ 56, 0, 0, 0)"
  unfolding tick_counts_f64_def delta_Lmax_f64_small_room fl_small_room
  by (simp add: float_mul_def float_truediv_def py_int_def floor_rat_numeral_div
      fl_def fl_pos_def scale2_def round_half_even_def Rat.normalize_def Let_def
      compute_floorlog gcd_non_0_int)

text \<open>
  Claim C6 (\<^verbatim>\<open>delta_Lmax\<close>, the gcd of the tick counts divided by the common
  multiple of the denominators, divides each dimension of the room exactly). Lines 142
  to 144 and 151 divide Python integers with \<^verbatim>\<open>/\<close>, which gives a float, where
  the whole-number quotient is meant. For the room of edge 0.123456789012 in all three
  directions the denominators are 250000000000, \<^verbatim>\<open>den_lcm\<close> is 6.25e22 and the
  tick count 7716049313250000000000 is beyond \<open>2 ^ 53\<close>: the float quotient of line 142
  is 7716049313250000502784, and \<^verbatim>\<open>delta_Lmax\<close> comes out as
  0.12345678901200001 (\<open>8895999183852819 / 2 ^ 56\<close>), one unit in the last place above
  the edge of the room (\<open>8895999183852818 / 2 ^ 56\<close>), where exact arithmetic gives the
  edge itself. This \<^verbatim>\<open>delta_Lmax\<close> divides no dimension: each quotient
  \<^verbatim>\<open>x_lim/delta_L\<close> of lines 173 to 175 is 0.9999999999999999, every tick count is
  0, and the tessellation with the scale factor 1 has no cell.
\<close>

theorem delta_Lmax_rounded_exceeds_dimension:
  "delta_Lmax (123456789012 / 10 ^ 12) (123456789012 / 10 ^ 12) (123456789012 / 10 ^ 12)
     = Inr (123456789012 / 10 ^ 12)
   \<and> delta_Lmax_f64 (123456789012 / 10 ^ 12) (123456789012 / 10 ^ 12) (123456789012 / 10 ^ 12)
       = Inr (8895999183852819 / 2 ^ 56)
   \<and> fl (123456789012 / 10 ^ 12) = 8895999183852818 / 2 ^ 56
   \<and> tick_counts_f64 (123456789012 / 10 ^ 12) (123456789012 / 10 ^ 12) (123456789012 / 10 ^ 12) 1
       = Inr (8895999183852819 / 2 ^ 56, 0, 0, 0)"
  by (intro conjI) (rule delta_Lmax_exact_small_room, rule delta_Lmax_f64_small_room,
      rule fl_small_room, rule tick_counts_small_room)

text \<open>
  The same rounding at lines 173 to 175, for the room 0.1 x 0.2 x 0.3 with the scale
  factor 1: \<^verbatim>\<open>delta_L\<close> is the float 0.1, the float quotient \<^verbatim>\<open>0.3/0.1\<close> is
  2.9999999999999996 and \<^verbatim>\<open>no_ztick\<close> is 2, where exact arithmetic gives 3.
\<close>

lemma tick_counts_tenths:
  "tick_counts_f64 (1 / 10) (1 / 5) (3 / 10) 1 = Inr (3602879701896397 / 2 ^ 55, 1, 2, 2)"
  by (simp add: tick_counts_f64_def delta_Lmax_f64_def int_truediv_def lcm3_def float_mul_def
      float_truediv_def py_int_def floor_rat_numeral_div
      fl_def fl_pos_def scale2_def round_half_even_def Rat.normalize_def Let_def
      compute_floorlog gcd_non_0_int)

subsection \<open>Histograms\<close>

lemma py_int_r_of_int [simp]: "py_int_r (of_int k) = k"
  by (simp add: py_int_r_def)

lemma np_index_in_range:
  assumes "- int n \<le> idx" "idx < int n"
  shows "np_index n idx = Inr (bin_of n idx)" and "bin_of n idx < n"
proof -
  have npos: "0 < int n" using assms by linarith
  show "bin_of n idx < n"
    using npos by (simp add: bin_of_def nat_less_iff)
  show "np_index n idx = Inr (bin_of n idx)"
  proof (cases "0 \<le> idx")
    case True
    then show ?thesis using assms by (simp add: np_index_def bin_of_def)
  next
    case False
    then have neg: "idx < 0" by simp
    have "(idx + int n) mod int n = idx + int n"
      using assms neg by (intro mod_pos_pos_trivial) auto
    then have "idx mod int n = idx + int n" by simp
    then show ?thesis using assms neg by (simp add: np_index_def bin_of_def)
  qed
qed

lemma np_index_out_of_range:
  assumes "idx < - int n \<or> int n \<le> idx"
  shows "np_index n idx = Inl IndexError"
  using assms by (auto simp: np_index_def)

lemma np_index_error: "np_index n idx = Inl e \<Longrightarrow> e = IndexError"
  by (auto simp: np_index_def split: if_splits)

lemma np_add_at_error: "np_add_at hist idx i p = Inl e \<Longrightarrow> e = IndexError"
  by (auto simp: np_add_at_def bnd_def py_get_def dest: np_index_error
      split: sum.splits if_splits)

lemma np_add_at_length: "np_add_at hist idx i p = Inr hist' \<Longrightarrow> length hist' = length hist"
  by (auto simp: np_add_at_def bnd_def py_get_def split: sum.splits if_splits)

lemma hist_accumulate_error: "hist_accumulate a i js hist = Inl e \<Longrightarrow> e = IndexError"
proof (induction js arbitrary: hist)
  case Nil
  then show ?case by simp
next
  case (Cons j js)
  show ?case
  proof (cases "py_get a j")
    case (Inl e')
    then show ?thesis using Cons.prems by (auto simp: py_get_def split: if_splits)
  next
    case (Inr row)
    obtain p d where row: "row = (p, d)" by (cases row)
    show ?thesis
    proof (cases "np_add_at hist (py_int_r d) i p")
      case (Inl e')
      then show ?thesis using Cons.prems Inr row np_add_at_error by auto
    next
      case (Inr hist')
      then show ?thesis using Cons.prems \<open>py_get a j = Inr row\<close> row Cons.IH by auto
    qed
  qed
qed

lemma hist_accumulate_bad:
  assumes "\<exists>j\<in>set js. \<not> j < length a \<or> py_int_r (snd (a ! j)) < - int (length hist)
             \<or> int (length hist) \<le> py_int_r (snd (a ! j))"
  shows "hist_accumulate a i js hist = Inl IndexError"
  using assms
proof (induction js arbitrary: hist)
  case Nil
  then show ?case by simp
next
  case (Cons j js)
  show ?case
  proof (cases "j < length a")
    case False
    then show ?thesis by (simp add: py_get_def)
  next
    case True
    obtain p d where row: "a ! j = (p, d)" by (cases "a ! j")
    have g: "py_get a j = Inr (p, d)" using True row by (simp add: py_get_def)
    show ?thesis
    proof (cases "np_add_at hist (py_int_r d) i p")
      case (Inl e)
      then show ?thesis using g np_add_at_error by auto
    next
      case (Inr hist')
      have len: "length hist' = length hist" using np_add_at_length [OF Inr] .
      have ok: "\<not> (py_int_r d < - int (length hist) \<or> int (length hist) \<le> py_int_r d)"
      proof
        assume "py_int_r d < - int (length hist) \<or> int (length hist) \<le> py_int_r d"
        then have "np_index (length hist) (py_int_r d) = Inl IndexError"
          by (rule np_index_out_of_range)
        then show False using Inr by (simp add: np_add_at_def)
      qed
      have "\<exists>j\<in>set js. \<not> j < length a \<or> py_int_r (snd (a ! j)) < - int (length hist')
             \<or> int (length hist') \<le> py_int_r (snd (a ! j))"
        using Cons.prems True ok row by (auto simp: len)
      then have "hist_accumulate a i js hist' = Inl IndexError" by (rule Cons.IH)
      then show ?thesis using g Inr by simp
    qed
  qed
qed

lemma length_add_power [simp]: "length (add_power hist b i p) = length hist"
  by (simp add: add_power_def)

lemma length_row_add_power [simp]: "length (add_power hist b i p ! b') = length (hist ! b')"
  by (cases "b < length hist") (simp_all add: add_power_def nth_list_update list_update_beyond)

lemma nth_add_power:
  "b < length hist \<Longrightarrow> i < length (hist ! b) \<Longrightarrow>
     add_power hist b i p ! b' ! c = hist ! b' ! c + (if b' = b \<and> c = i then p else 0)"
  by (simp add: add_power_def nth_list_update)

lemma length_fold_acc_step [simp]: "length (fold (acc_step a n i) js hist) = length hist"
  by (induction js arbitrary: hist) (simp_all add: acc_step_def)

lemma length_row_fold_acc_step [simp]:
  "length (fold (acc_step a n i) js hist ! b) = length (hist ! b)"
  by (induction js arbitrary: hist) (simp_all add: acc_step_def)

lemma np_add_at_ok:
  assumes "- int (length hist) \<le> idx" "idx < int (length hist)"
    and "\<forall>b<length hist. i < length (hist ! b)"
  shows "np_add_at hist idx i p = Inr (add_power hist (bin_of (length hist) idx) i p)"
proof -
  have b: "np_index (length hist) idx = Inr (bin_of (length hist) idx)"
    "bin_of (length hist) idx < length hist"
    using np_index_in_range [OF assms(1,2)] by simp_all
  then have "i < length (hist ! bin_of (length hist) idx)" using assms(3) by simp
  then show ?thesis using b(1) by (simp add: np_add_at_def py_get_def add_power_def)
qed

lemma hist_accumulate_ok:
  assumes "\<forall>j\<in>set js. j < length a \<and> - int (length hist) \<le> py_int_r (snd (a ! j))
             \<and> py_int_r (snd (a ! j)) < int (length hist)"
    and "\<forall>b<length hist. i < length (hist ! b)"
  shows "hist_accumulate a i js hist = Inr (fold (acc_step a (length hist) i) js hist)"
  using assms
proof (induction js arbitrary: hist)
  case Nil
  then show ?case by simp
next
  case (Cons j js)
  obtain p d where row: "a ! j = (p, d)" by (cases "a ! j")
  have jl: "j < length a" and lo: "- int (length hist) \<le> py_int_r d"
    and hi: "py_int_r d < int (length hist)"
    using Cons.prems(1) row by auto
  define hist1 where "hist1 = acc_step a (length hist) i j hist"
  have step: "np_add_at hist (py_int_r d) i p = Inr hist1"
    using np_add_at_ok [OF lo hi Cons.prems(2)] row by (simp add: hist1_def acc_step_def)
  have len1: "length hist1 = length hist" by (simp add: hist1_def acc_step_def)
  have rows1: "\<forall>b<length hist1. i < length (hist1 ! b)"
    using Cons.prems(2) by (simp add: hist1_def acc_step_def)
  have pre1: "\<forall>j\<in>set js. j < length a \<and> - int (length hist1) \<le> py_int_r (snd (a ! j))
             \<and> py_int_r (snd (a ! j)) < int (length hist1)"
    using Cons.prems(1) by (simp add: len1)
  have "hist_accumulate a i js hist1 = Inr (fold (acc_step a (length hist) i) js hist1)"
    using Cons.IH [OF pre1 rows1] unfolding len1 .
  then show ?case
    using jl row step by (simp add: py_get_def hist1_def)
qed

lemma fold_acc_step_nth:
  assumes "\<forall>j\<in>set js. bin_of n (py_int_r (snd (a ! j))) < length hist"
    and "\<forall>b<length hist. i < length (hist ! b)"
  shows "fold (acc_step a n i) js hist ! b ! c
           = hist ! b ! c + (if c = i then sum_list (map (\<lambda>j. fst (a ! j))
                 (filter (\<lambda>j. bin_of n (py_int_r (snd (a ! j))) = b) js)) else 0)"
  using assms
proof (induction js arbitrary: hist)
  case Nil
  then show ?case by simp
next
  case (Cons j js)
  define hist1 where "hist1 = acc_step a n i j hist"
  have b0: "bin_of n (py_int_r (snd (a ! j))) < length hist" using Cons.prems(1) by simp
  then have il: "i < length (hist ! bin_of n (py_int_r (snd (a ! j))))"
    using Cons.prems(2) by simp
  have one: "hist1 ! b ! c = hist ! b ! c
      + (if b = bin_of n (py_int_r (snd (a ! j))) \<and> c = i then fst (a ! j) else 0)"
    unfolding hist1_def acc_step_def using nth_add_power [OF b0 il] by simp
  have pre: "\<forall>j\<in>set js. bin_of n (py_int_r (snd (a ! j))) < length hist1"
    using Cons.prems(1) by (simp add: hist1_def acc_step_def)
  have rows: "\<forall>b<length hist1. i < length (hist1 ! b)"
    using Cons.prems(2) by (simp add: hist1_def acc_step_def)
  have "fold (acc_step a n i) js hist1 ! b ! c
           = hist1 ! b ! c + (if c = i then sum_list (map (\<lambda>j. fst (a ! j))
                 (filter (\<lambda>j. bin_of n (py_int_r (snd (a ! j))) = b) js)) else 0)"
    using Cons.IH [OF pre rows] .
  then show ?case unfolding one by (simp add: hist1_def)
qed

lemma binned_two_steps:
  "map (\<lambda>(p, d). (p, of_int \<lfloor>d / TIME_RESOLUTION\<rfloor>)) (map (\<lambda>(p, d). (p, d - dl)) a)
     = binned dl a"
  by (simp add: binned_def bucket_def split_def)

lemma binned_comp:
  "map ((\<lambda>(p, d). (p, of_int \<lfloor>d / TIME_RESOLUTION\<rfloor>)) \<circ> (\<lambda>(p, d). (p, d - dl))) a
     = binned dl a"
  by (simp add: binned_def bucket_def split_def o_def)

lemma length_binned [simp]: "length (binned dl a) = length a"
  by (simp add: binned_def)

lemma nth_binned: "j < length a \<Longrightarrow> binned dl a ! j = (fst (a ! j), of_int (bucket dl (snd (a ! j))))"
  by (simp add: binned_def split_def)

lemma map_fst_binned [simp]: "map fst (binned dl a) = map fst a"
  by (simp add: binned_def split_def)

lemma order_body_unfold:
  assumes "i < length h_k" "length (hk_aux st) = i" "h_k ! i < length (heap st)"
  shows "order_body h_k dl n i st =
     (let r = h_k ! i; a' = binned dl (heap st ! r);
          st5 = st\<lparr> heap := (heap st @ [replicate (n ^ i) (0, 0)])[r := a'],
                  hk_aux := hk_aux st @ [r],
                  h_power := (h_power st)[i := sum_list (map fst (heap st ! r))] \<rparr>
      in case hist_accumulate a' i [0..<n ^ i] (hist_power_time st) of
           Inl e \<Rightarrow> (Some e, st5)
         | Inr hist' \<Rightarrow> (None, st5\<lparr>hist_power_time := hist'\<rparr>))"
proof -
  define r where "r = h_k ! i"
  define s1 where "s1 = heap st @ [replicate (n ^ i) (0::real, 0::real)]"
  have upd: "(hk_aux st @ [length (heap st)])[i := r] = hk_aux st @ [r]"
    using assms(2) by (metis list_update_length)
  have nth: "(hk_aux st @ [r]) ! i = r"
    using assms(2) by (metis nth_append_length)
  have rl: "r < length s1" using assms(3) by (simp add: s1_def r_def)
  have s1r: "s1 ! r = heap st ! r" using assms(3) by (simp add: s1_def r_def nth_append)
  have g: "py_get h_k i = Inr r" using assms(1) by (simp add: py_get_def r_def)
  have s5: "(s1[r := map (\<lambda>(p, d). (p, d - dl)) (s1 ! r)])
              [r := map (\<lambda>(p, d). (p, of_int \<lfloor>d / TIME_RESOLUTION\<rfloor>))
                      (s1[r := map (\<lambda>(p, d). (p, d - dl)) (s1 ! r)] ! r)]
            = s1[r := binned dl (heap st ! r)]"
    using rl by (simp add: binned_comp s1r)
  have s5r: "s1[r := binned dl (heap st ! r)] ! r = binned dl (heap st ! r)"
    using rl by simp
  show ?thesis
    unfolding order_body_def alloc_def r_def [symmetric] s1_def [symmetric]
    by (simp add: g Let_def upd nth rl s1r binned_comp split: sum.splits)
qed

lemma sum_list_index_filter:
  "sum_list (map (\<lambda>j. f (xs ! j)) (filter (\<lambda>j. P (xs ! j)) [0..<length xs]))
     = sum_list (map f (filter P xs))"
proof -
  have "map f (filter P xs) = map f (filter P (map ((!) xs) [0..<length xs]))"
    by (simp add: map_nth)
  also have "\<dots> = map (\<lambda>j. f (xs ! j)) (filter (\<lambda>j. P (xs ! j)) [0..<length xs])"
    by (simp add: filter_map o_def)
  finally show ?thesis by simp
qed

lemma binsum_binned:
  "sum_list (map (\<lambda>j. fst (binned dl a ! j))
       (filter (\<lambda>j. bin_of BINS_HIST (py_int_r (snd (binned dl a ! j))) = b) [0..<length a]))
     = binsum dl b a"
proof -
  have "sum_list (map (\<lambda>j. fst (binned dl a ! j))
       (filter (\<lambda>j. bin_of BINS_HIST (py_int_r (snd (binned dl a ! j))) = b)
          [0..<length (binned dl a)]))
     = sum_list (map fst (filter (\<lambda>x. bin_of BINS_HIST (py_int_r (snd x)) = b) (binned dl a)))"
    by (rule sum_list_index_filter)
  also have "\<dots> = binsum dl b a"
    by (simp add: binsum_def binned_def filter_map o_def split_def)
  finally show ?thesis by simp
qed

lemma order_body_ok:
  assumes wf: "wf_input s0 h_k k n" and inv: "hinv s0 h_k dl k i0 st" and ik: "i0 \<le> k"
    and ok: "order_ok dl (s0 ! (h_k ! i0))"
  shows "\<exists>st'. order_body h_k dl n i0 st = (None, st') \<and> hinv s0 h_k dl k (i0 + 1) st'"
proof -
  define r where "r = h_k ! i0"
  define a where "a = s0 ! r"
  define a' where "a' = binned dl a"
  define hist where "hist = hist_power_time st"
  have il: "i0 < length h_k" using wf ik by (simp add: wf_input_def)
  have la: "length (hk_aux st) = i0" using inv by (simp add: hinv_def)
  have rs0: "r < length s0" and lena: "length a = n ^ i0"
    using wf ik by (simp_all add: wf_input_def r_def a_def)
  have ls: "length s0 \<le> length (heap st)" using inv by (simp add: hinv_def)
  have rl: "r < length (heap st)" using rs0 ls by simp
  have hr: "heap st ! r = a" using inv ik by (simp add: hinv_def r_def a_def)
  have lh: "length hist = BINS_HIST" using inv by (simp add: hinv_def hist_def)
  have rows: "\<forall>b<length hist. i0 < length (hist ! b)"
    using inv ik by (simp add: hinv_def hist_def)
  have rng: "\<forall>j\<in>set [0..<n ^ i0]. j < length a'
               \<and> - int (length hist) \<le> py_int_r (snd (a' ! j))
               \<and> py_int_r (snd (a' ! j)) < int (length hist)"
  proof
    fix j assume "j \<in> set [0..<n ^ i0]"
    then have j: "j < length a" by (simp add: lena)
    then have "a ! j \<in> set a" by simp
    then have "- int BINS_HIST \<le> bucket dl (snd (a ! j)) \<and> bucket dl (snd (a ! j)) < int BINS_HIST"
      using ok by (auto simp: order_ok_def a_def r_def split_def)
    then show "j < length a' \<and> - int (length hist) \<le> py_int_r (snd (a' ! j))
               \<and> py_int_r (snd (a' ! j)) < int (length hist)"
      using j by (simp add: a'_def nth_binned lh)
  qed
  define hist' where "hist' = fold (acc_step a' (length hist) i0) [0..<n ^ i0] hist"
  have acc: "hist_accumulate a' i0 [0..<n ^ i0] hist = Inr hist'"
    unfolding hist'_def by (rule hist_accumulate_ok [OF rng rows])
  define st' where "st' = st\<lparr> heap := (heap st @ [replicate (n ^ i0) (0, 0)])[r := a'],
                  hk_aux := hk_aux st @ [r],
                  h_power := (h_power st)[i0 := sum_list (map fst a)],
                  hist_power_time := hist' \<rparr>"
  have run: "order_body h_k dl n i0 st = (None, st')"
    using order_body_unfold [OF il la, of dl n] rl acc
    by (simp add: r_def [symmetric] hr a'_def [symmetric] hist_def [symmetric] st'_def Let_def)
  have bins: "\<forall>j\<in>set [0..<n ^ i0]. bin_of (length hist) (py_int_r (snd (a' ! j))) < length hist"
    using rng np_index_in_range(2) by blast
  have hnth: "hist' ! b ! c = hist ! b ! c + (if c = i0 then binsum dl b a else 0)" for b c
    unfolding hist'_def fold_acc_step_nth [OF bins rows]
    using binsum_binned [of dl a b] by (simp add: lh a'_def lena)
  have "length (hk_aux st') = i0 + 1" by (simp add: st'_def la)
  moreover have "length (h_power st') = k + 1" using inv by (simp add: st'_def hinv_def)
  moreover have "length (hist_power_time st') = BINS_HIST"
    by (simp add: st'_def hist'_def lh)
  moreover have "\<forall>b<BINS_HIST. length (hist_power_time st' ! b) = k + 1"
    using inv by (simp add: st'_def hist'_def hinv_def hist_def)
  moreover have "length s0 \<le> length (heap st')" using ls by (simp add: st'_def)
  moreover have "\<forall>i\<le>k. heap st' ! (h_k ! i)
                 = (if i < i0 + 1 then binned dl (s0 ! (h_k ! i)) else s0 ! (h_k ! i))"
  proof (intro allI impI)
    fix i assume i: "i \<le> k"
    show "heap st' ! (h_k ! i)
                 = (if i < i0 + 1 then binned dl (s0 ! (h_k ! i)) else s0 ! (h_k ! i))"
    proof (cases "i = i0")
      case True
      then show ?thesis using rl by (simp add: st'_def r_def [symmetric] a'_def a_def)
    next
      case False
      have d: "distinct (take (k + 1) h_k)" and lk: "k < length h_k"
        using wf by (simp_all add: wf_input_def)
      have li: "i < length (take (k + 1) h_k)" and li0: "i0 < length (take (k + 1) h_k)"
        using i ik lk by simp_all
      have "(take (k + 1) h_k ! i = take (k + 1) h_k ! i0) = (i = i0)"
        by (rule nth_eq_iff_index_eq [OF d li li0])
      then have ne: "h_k ! i \<noteq> r" using False i ik by (simp add: r_def)
      have lt: "h_k ! i < length (heap st)" using wf i ls by (auto simp: wf_input_def)
      have "heap st' ! (h_k ! i) = heap st ! (h_k ! i)"
        using ne lt by (simp add: st'_def nth_append)
      also have "\<dots> = (if i < i0 then binned dl (s0 ! (h_k ! i)) else s0 ! (h_k ! i))"
        using inv i by (simp add: hinv_def)
      finally show ?thesis using False by auto
    qed
  qed
  moreover have "\<forall>i<i0 + 1. h_power st' ! i = sum_list (map fst (s0 ! (h_k ! i)))"
  proof (intro allI impI)
    fix i assume "i < i0 + 1"
    then consider "i = i0" | "i < i0" by linarith
    then show "h_power st' ! i = sum_list (map fst (s0 ! (h_k ! i)))"
    proof cases
      case 1
      then show ?thesis using inv ik by (simp add: st'_def hinv_def a_def r_def)
    next
      case 2
      then show ?thesis using inv by (simp add: st'_def hinv_def)
    qed
  qed
  moreover have "\<forall>b<BINS_HIST. \<forall>i\<le>k. hist_power_time st' ! b ! i
                 = (if i < i0 + 1 then binsum dl b (s0 ! (h_k ! i)) else 0)"
  proof (intro allI impI)
    fix b i assume b: "b < BINS_HIST" and i: "i \<le> k"
    have old: "hist ! b ! i = (if i < i0 then binsum dl b (s0 ! (h_k ! i)) else 0)"
      using inv b i by (simp add: hinv_def hist_def)
    show "hist_power_time st' ! b ! i
                 = (if i < i0 + 1 then binsum dl b (s0 ! (h_k ! i)) else 0)"
      using old by (cases "i = i0") (auto simp: st'_def hnth a_def r_def)
  qed
  ultimately have "hinv s0 h_k dl k (i0 + 1) st'" unfolding hinv_def by blast
  then show ?thesis using run by blast
qed

lemma order_body_bad:
  assumes wf: "wf_input s0 h_k k n" and inv: "hinv s0 h_k dl k i0 st" and ik: "i0 \<le> k"
    and bad: "\<not> order_ok dl (s0 ! (h_k ! i0))"
  shows "\<exists>st'. order_body h_k dl n i0 st = (Some IndexError, st')"
proof -
  define r where "r = h_k ! i0"
  define a where "a = s0 ! r"
  define hist where "hist = hist_power_time st"
  have il: "i0 < length h_k" using wf ik by (simp add: wf_input_def)
  have la: "length (hk_aux st) = i0" using inv by (simp add: hinv_def)
  have rs0: "r < length s0" and lena: "length a = n ^ i0"
    using wf ik by (simp_all add: wf_input_def r_def a_def)
  have ls: "length s0 \<le> length (heap st)" using inv by (simp add: hinv_def)
  have rl: "r < length (heap st)" using rs0 ls by simp
  have hr: "heap st ! r = a" using inv ik by (simp add: hinv_def r_def a_def)
  have lh: "length hist = BINS_HIST" using inv by (simp add: hinv_def hist_def)
  obtain x where x: "x \<in> set a"
    "bucket dl (snd x) < - int BINS_HIST \<or> int BINS_HIST \<le> bucket dl (snd x)"
    using bad by (auto simp: order_ok_def a_def r_def split_def)
  obtain j where j: "j < length a" "a ! j = x" using x(1) by (auto simp: in_set_conv_nth)
  have "j \<in> set [0..<n ^ i0]" using j(1) by (simp add: lena)
  moreover have "py_int_r (snd (binned dl a ! j)) < - int (length hist)
                   \<or> int (length hist) \<le> py_int_r (snd (binned dl a ! j))"
    using x(2) j by (simp add: nth_binned lh)
  ultimately have "\<exists>j\<in>set [0..<n ^ i0]. \<not> j < length (binned dl a)
             \<or> py_int_r (snd (binned dl a ! j)) < - int (length hist)
             \<or> int (length hist) \<le> py_int_r (snd (binned dl a ! j))"
    by blast
  then have "hist_accumulate (binned dl a) i0 [0..<n ^ i0] hist = Inl IndexError"
    by (rule hist_accumulate_bad)
  then show ?thesis
    using order_body_unfold [OF il la, of dl n] rl
    by (simp add: r_def [symmetric] hr hist_def [symmetric] Let_def)
qed

lemma orders_loop_ok:
  assumes wf: "wf_input s0 h_k k n"
  shows "hinv s0 h_k dl k i0 st \<Longrightarrow> i0 \<le> k + 1 \<Longrightarrow> m = k + 1 - i0 \<Longrightarrow>
         \<forall>i. i0 \<le> i \<and> i \<le> k \<longrightarrow> order_ok dl (s0 ! (h_k ! i)) \<Longrightarrow>
         \<exists>st'. orders_loop h_k dl n [i0..<k + 1] st = (None, st') \<and> hinv s0 h_k dl k (k + 1) st'"
proof (induction m arbitrary: i0 st)
  case 0
  then have "i0 = k + 1" by simp
  then show ?case using "0.prems"(1) by simp
next
  case (Suc m)
  have ik: "i0 \<le> k" using Suc.prems(3) by simp
  have ok0: "order_ok dl (s0 ! (h_k ! i0))" using Suc.prems(4) ik by simp
  obtain st1 where st1: "order_body h_k dl n i0 st = (None, st1)"
    "hinv s0 h_k dl k (i0 + 1) st1"
    using order_body_ok [OF wf Suc.prems(1) ik ok0] by blast
  have up: "[i0..<k + 1] = i0 # [i0 + 1..<k + 1]" using ik by (simp add: upt_conv_Cons)
  have "\<exists>st'. orders_loop h_k dl n [i0 + 1..<k + 1] st1 = (None, st')
           \<and> hinv s0 h_k dl k (k + 1) st'"
  proof (rule Suc.IH [OF st1(2)])
    show "i0 + 1 \<le> k + 1" using ik by simp
    show "m = k + 1 - (i0 + 1)" using Suc.prems(3) by simp
    show "\<forall>i. i0 + 1 \<le> i \<and> i \<le> k \<longrightarrow> order_ok dl (s0 ! (h_k ! i))"
      using Suc.prems(4) by simp
  qed
  then show ?case unfolding up by (simp add: st1(1))
qed

lemma orders_loop_bad:
  assumes wf: "wf_input s0 h_k k n"
  shows "hinv s0 h_k dl k i0 st \<Longrightarrow> m = k + 1 - i0 \<Longrightarrow>
         \<exists>i. i0 \<le> i \<and> i \<le> k \<and> \<not> order_ok dl (s0 ! (h_k ! i)) \<Longrightarrow>
         \<exists>st'. orders_loop h_k dl n [i0..<k + 1] st = (Some IndexError, st')"
proof (induction m arbitrary: i0 st)
  case 0
  then show ?case by auto
next
  case (Suc m)
  have ik: "i0 \<le> k" using Suc.prems(2) by simp
  have up: "[i0..<k + 1] = i0 # [i0 + 1..<k + 1]" using ik by (simp add: upt_conv_Cons)
  show ?case
  proof (cases "order_ok dl (s0 ! (h_k ! i0))")
    case False
    obtain st1 where "order_body h_k dl n i0 st = (Some IndexError, st1)"
      using order_body_bad [OF wf Suc.prems(1) ik False] by blast
    then show ?thesis unfolding up by simp
  next
    case True
    obtain st1 where st1: "order_body h_k dl n i0 st = (None, st1)"
      "hinv s0 h_k dl k (i0 + 1) st1"
      using order_body_ok [OF wf Suc.prems(1) ik True] by blast
    obtain i where i: "i0 \<le> i" "i \<le> k" "\<not> order_ok dl (s0 ! (h_k ! i))"
      using Suc.prems(3) by blast
    have "i \<noteq> i0" using True i(3) by auto
    then have i': "i0 + 1 \<le> i" using i(1) by simp
    have "\<exists>st'. orders_loop h_k dl n [i0 + 1..<k + 1] st1 = (Some IndexError, st')"
    proof (rule Suc.IH [OF st1(2)])
      show "m = k + 1 - (i0 + 1)" using Suc.prems(2) by simp
      show "\<exists>i. i0 + 1 \<le> i \<and> i \<le> k \<and> \<not> order_ok dl (s0 ! (h_k ! i))"
        using i' i(2,3) by blast
    qed
    then show ?thesis unfolding up by (simp add: st1(1))
  qed
qed

lemma create_histograms_start:
  assumes wf: "wf_input s h_k k n"
  shows "create_histograms s h_k k n =
     (let st0 = \<lparr> heap = s, hk_aux = [], h_power = replicate (k + 1) 0,
                  hist_power_time = replicate BINS_HIST (replicate (k + 1) 0) \<rparr>
      in case orders_loop h_k (delay_los_of s h_k) n [0..<k + 1] st0 of
           (Some e, st) \<Rightarrow> (Inl e, heap st)
         | (None, st) \<Rightarrow>
             (Inr \<lparr> hist_power_time_out = hist_power_time st,
                     total_ht = map sum_list (hist_power_time st),
                     time_scale = time_scale_of,
                     h_power_out = h_power st \<rparr>, heap st))"
    and "hinv s h_k (delay_los_of s h_k) k 0
           \<lparr> heap = s, hk_aux = [], h_power = replicate (k + 1) 0,
             hist_power_time = replicate BINS_HIST (replicate (k + 1) 0) \<rparr>"
proof -
  have l0: "0 < length h_k" using wf by (auto simp: wf_input_def)
  have "length (s ! (h_k ! 0)) = n ^ 0" using wf by (simp add: wf_input_def)
  then have l1: "0 < length (s ! (h_k ! 0))" by simp
  obtain p0 d0 where row: "s ! (h_k ! 0) ! 0 = (p0, d0)" by (cases "s ! (h_k ! 0) ! 0")
  have dl: "delay_los_of s h_k = d0" by (simp add: delay_los_of_def row)
  show "create_histograms s h_k k n =
     (let st0 = \<lparr> heap = s, hk_aux = [], h_power = replicate (k + 1) 0,
                  hist_power_time = replicate BINS_HIST (replicate (k + 1) 0) \<rparr>
      in case orders_loop h_k (delay_los_of s h_k) n [0..<k + 1] st0 of
           (Some e, st) \<Rightarrow> (Inl e, heap st)
         | (None, st) \<Rightarrow>
             (Inr \<lparr> hist_power_time_out = hist_power_time st,
                     total_ht = map sum_list (hist_power_time st),
                     time_scale = time_scale_of,
                     h_power_out = h_power st \<rparr>, heap st))"
    using l0 l1 by (simp add: create_histograms_def py_get_def row dl Let_def)
  show "hinv s h_k (delay_los_of s h_k) k 0
           \<lparr> heap = s, hk_aux = [], h_power = replicate (k + 1) 0,
             hist_power_time = replicate BINS_HIST (replicate (k + 1) 0) \<rparr>"
  proof -
    have z: "\<forall>i\<le>k. replicate (k + 1) (0::real) ! i = 0"
    proof (intro allI impI)
      fix i assume "i \<le> k"
      then have "i < k + 1" by simp
      then show "replicate (k + 1) (0::real) ! i = 0" by (rule nth_replicate)
    qed
    show ?thesis
      unfolding hinv_def using z by (simp del: replicate.simps)
  qed
qed

lemma create_histograms_ok:
  assumes wf: "wf_input s h_k k n"
    and ok: "\<forall>i\<le>k. order_ok (delay_los_of s h_k) (s ! (h_k ! i))"
  shows "\<exists>st. hinv s h_k (delay_los_of s h_k) k (k + 1) st
           \<and> create_histograms s h_k k n =
               (Inr \<lparr> hist_power_time_out = hist_power_time st,
                       total_ht = map sum_list (hist_power_time st),
                       time_scale = time_scale_of,
                       h_power_out = h_power st \<rparr>, heap st)"
proof -
  have "\<forall>i. 0 \<le> i \<and> i \<le> k \<longrightarrow> order_ok (delay_los_of s h_k) (s ! (h_k ! i))"
    using ok by simp
  then obtain st where st: "orders_loop h_k (delay_los_of s h_k) n [0..<k + 1]
        \<lparr> heap = s, hk_aux = [], h_power = replicate (k + 1) 0,
          hist_power_time = replicate BINS_HIST (replicate (k + 1) 0) \<rparr> = (None, st)"
    "hinv s h_k (delay_los_of s h_k) k (k + 1) st"
    using orders_loop_ok [OF wf create_histograms_start(2) [OF wf] _ refl] by auto
  show ?thesis
    using st by (auto simp: create_histograms_start(1) [OF wf] Let_def)
qed

lemma create_histograms_bad:
  assumes wf: "wf_input s h_k k n"
    and bad: "\<exists>i\<le>k. \<not> order_ok (delay_los_of s h_k) (s ! (h_k ! i))"
  shows "\<exists>s'. create_histograms s h_k k n = (Inl IndexError, s')"
proof -
  have "\<exists>i. 0 \<le> i \<and> i \<le> k \<and> \<not> order_ok (delay_los_of s h_k) (s ! (h_k ! i))"
    using bad by simp
  then obtain st where st: "orders_loop h_k (delay_los_of s h_k) n [0..<k + 1]
        \<lparr> heap = s, hk_aux = [], h_power = replicate (k + 1) 0,
          hist_power_time = replicate BINS_HIST (replicate (k + 1) 0) \<rparr> = (Some IndexError, st)"
    using orders_loop_bad [OF wf create_histograms_start(2) [OF wf] refl] by auto
  show ?thesis
    using st by (auto simp: create_histograms_start(1) [OF wf] Let_def)
qed

lemma sum_bins_filter:
  assumes "\<forall>x\<in>set xs. g x < (B::nat)"
  shows "(\<Sum>b<B. sum_list (map f (filter (\<lambda>x. g x = b) xs))) = sum_list (map (f :: 'a \<Rightarrow> real) xs)"
  using assms
proof (induction xs)
  case Nil
  then show ?case by simp
next
  case (Cons x xs)
  have gx: "g x < B" using Cons.prems by simp
  have "(\<Sum>b<B. sum_list (map f (filter (\<lambda>y. g y = b) (x # xs))))
      = (\<Sum>b<B. (if b = g x then f x else 0) + sum_list (map f (filter (\<lambda>y. g y = b) xs)))"
    by (rule sum.cong) auto
  also have "\<dots> = (\<Sum>b<B. if b = g x then f x else 0)
                    + (\<Sum>b<B. sum_list (map f (filter (\<lambda>y. g y = b) xs)))"
    by (rule sum.distrib)
  also have "(\<Sum>b<B. if b = g x then f x else 0) = f x"
    using gx by (subst sum.delta) auto
  also have "(\<Sum>b<B. sum_list (map f (filter (\<lambda>y. g y = b) xs))) = sum_list (map f xs)"
    using Cons by simp
  finally show ?case by simp
qed

lemma binsum_total:
  assumes "order_ok dl a"
  shows "(\<Sum>b<BINS_HIST. binsum dl b a) = sum_list (map fst a)"
proof -
  have "\<forall>x\<in>set a. bin_of BINS_HIST (bucket dl (snd x)) < BINS_HIST"
    using assms np_index_in_range(2) by (fastforce simp: order_ok_def)
  then have "(\<Sum>b<BINS_HIST. sum_list (map fst
               (filter (\<lambda>x. bin_of BINS_HIST (bucket dl (snd x)) = b) a))) = sum_list (map fst a)"
    by (rule sum_bins_filter)
  then show ?thesis by (simp add: binsum_def split_def)
qed

lemma bin_of_in_range: "0 \<le> idx \<Longrightarrow> idx < int n \<Longrightarrow> bin_of n idx = nat idx"
  by (simp add: bin_of_def)

lemma binsum_in_range:
  assumes "\<forall>(p, d)\<in>set a. 0 \<le> bucket dl d \<and> bucket dl d < int BINS_HIST"
  shows "binsum dl b a = sum_list (map fst (filter (\<lambda>(p, d). bucket dl d = int b) a))"
proof -
  have "filter (\<lambda>(p, d). bin_of BINS_HIST (bucket dl d) = b) a
          = filter (\<lambda>(p, d). bucket dl d = int b) a"
    using assms by (intro filter_cong) (auto simp: bin_of_in_range)
  then show ?thesis by (simp add: binsum_def)
qed

lemma in_range_order_ok:
  assumes "\<forall>(p, d)\<in>set a. 0 \<le> bucket dl d \<and> bucket dl d < int BINS_HIST"
  shows "order_ok dl a"
  using assms by (fastforce simp: order_ok_def)

text \<open>
  Claim C10. Let the input have the shape \<open>wf_input\<close> and let every record of the
  orders 0 to \<open>k_reflec\<close> have its bucket index within \<open>[0, BINS_HIST)\<close>. Then
  \<^verbatim>\<open>create_histograms\<close> returns; for every order the bucket powers of its histogram
  sum to the reported total power of the order, which is the sum of the powers of its
  records; and the aggregate histogram is, bin by bin, the sum over the orders of the
  per-order histograms.
\<close>

theorem histogram_sums_to_order_power:
  assumes "wf_input s h_k k n"
    and "\<forall>i\<le>k. \<forall>(p, d)\<in>set (s ! (h_k ! i)).
           0 \<le> bucket (delay_los_of s h_k) d \<and> bucket (delay_los_of s h_k) d < int BINS_HIST"
  shows "\<exists>res s'. create_histograms s h_k k n = (Inr res, s')
           \<and> (\<forall>i\<le>k. (\<Sum>b<BINS_HIST. hist_power_time_out res ! b ! i) = h_power_out res ! i
                  \<and> h_power_out res ! i = sum_list (map fst (s ! (h_k ! i))))
           \<and> length (total_ht res) = BINS_HIST
           \<and> (\<forall>b<BINS_HIST. total_ht res ! b = (\<Sum>i\<le>k. hist_power_time_out res ! b ! i))"
proof -
  define dl where "dl = delay_los_of s h_k"
  have ok: "\<forall>i\<le>k. order_ok dl (s ! (h_k ! i))"
    using assms(2) in_range_order_ok unfolding dl_def by blast
  obtain st where st: "hinv s h_k dl k (k + 1) st"
    "create_histograms s h_k k n =
               (Inr \<lparr> hist_power_time_out = hist_power_time st,
                       total_ht = map sum_list (hist_power_time st),
                       time_scale = time_scale_of,
                       h_power_out = h_power st \<rparr>, heap st)"
    using create_histograms_ok [OF assms(1)] ok unfolding dl_def by blast
  have lh: "length (hist_power_time st) = BINS_HIST"
    and rows: "\<forall>b<BINS_HIST. length (hist_power_time st ! b) = k + 1"
    and pw: "\<forall>i\<le>k. h_power st ! i = sum_list (map fst (s ! (h_k ! i)))"
    and hv: "\<forall>b<BINS_HIST. \<forall>i\<le>k. hist_power_time st ! b ! i = binsum dl b (s ! (h_k ! i))"
    using st(1) by (simp_all add: hinv_def)
  have col: "(\<Sum>b<BINS_HIST. hist_power_time st ! b ! i) = sum_list (map fst (s ! (h_k ! i)))"
    if "i \<le> k" for i
  proof -
    have "(\<Sum>b<BINS_HIST. hist_power_time st ! b ! i) = (\<Sum>b<BINS_HIST. binsum dl b (s ! (h_k ! i)))"
      using hv that by simp
    also have "\<dots> = sum_list (map fst (s ! (h_k ! i)))"
      using ok that by (simp add: binsum_total)
    finally show ?thesis .
  qed
  have tot: "map sum_list (hist_power_time st) ! b = (\<Sum>i\<le>k. hist_power_time st ! b ! i)"
    if "b < BINS_HIST" for b
  proof -
    have "map sum_list (hist_power_time st) ! b = sum_list (hist_power_time st ! b)"
      using that lh by simp
    also have "\<dots> = (\<Sum>i = 0..<k + 1. hist_power_time st ! b ! i)"
      using rows that by (simp add: sum_list_sum_nth)
    also have "{0..<k + 1} = {..k}" by auto
    finally show ?thesis .
  qed
  show ?thesis
    using st(2) col pw tot lh by simp
qed

lemma le_one_cases: "(\<forall>i\<le>Suc 0. P i) \<longleftrightarrow> P 0 \<and> P (Suc 0)"
proof
  assume "\<forall>i\<le>Suc 0. P i"
  then show "P 0 \<and> P (Suc 0)" by simp
next
  assume h: "P 0 \<and> P (Suc 0)"
  show "\<forall>i\<le>Suc 0. P i"
  proof (intro allI impI)
    fix i :: nat assume "i \<le> Suc 0"
    then have "i = 0 \<or> i = Suc 0" by linarith
    then show "P i" using h by auto
  qed
qed

lemma hist_example_wf: "wf_input hist_example [0, 1] 1 1"
  by (simp add: wf_input_def hist_example_def le_one_cases)

lemma hist_example_delay_los: "delay_los_of hist_example [0, 1] = 5"
  by (simp add: delay_los_of_def hist_example_def)

lemma hist_example_in_range:
  "\<forall>i\<le>1. \<forall>(p, d)\<in>set (hist_example ! ([0, 1] ! i)).
      0 \<le> bucket (delay_los_of hist_example [0, 1]) d
      \<and> bucket (delay_los_of hist_example [0, 1]) d < int BINS_HIST"
  by (simp add: le_one_cases delay_los_of_def hist_example_def bucket_def
      TIME_RESOLUTION_def BINS_HIST_def)

text \<open>
  Claim C10 at a direct record of power 1 and one reflected record of power 1/2,
  three time steps later.
\<close>

theorem histogram_sums_to_order_power_witness:
  "\<exists>res s'. create_histograms hist_example [0, 1] 1 1 = (Inr res, s')
      \<and> (\<Sum>b<BINS_HIST. hist_power_time_out res ! b ! 1) = h_power_out res ! 1
      \<and> h_power_out res ! 1 = 1 / 2
      \<and> total_ht res ! 3 = (\<Sum>i\<le>1. hist_power_time_out res ! 3 ! i)"
proof -
  obtain res s' where r: "create_histograms hist_example [0, 1] 1 1 = (Inr res, s')"
    "\<forall>i\<le>1. (\<Sum>b<BINS_HIST. hist_power_time_out res ! b ! i) = h_power_out res ! i
                  \<and> h_power_out res ! i = sum_list (map fst (hist_example ! ([0, 1] ! i)))"
    "\<forall>b<BINS_HIST. total_ht res ! b = (\<Sum>i\<le>1. hist_power_time_out res ! b ! i)"
    using histogram_sums_to_order_power [OF hist_example_wf hist_example_in_range] by blast
  have "(\<Sum>b<BINS_HIST. hist_power_time_out res ! b ! 1) = h_power_out res ! 1"
    using r(2) by simp
  moreover have "h_power_out res ! 1 = 1 / 2"
    using r(2) by (simp add: hist_example_def)
  moreover have "total_ht res ! 3 = (\<Sum>i\<le>1. hist_power_time_out res ! 3 ! i)"
    using r(3) by (simp add: BINS_HIST_def)
  ultimately show ?thesis using r(1) by blast
qed

lemma out_of_range_not_ok:
  assumes "(p, d) \<in> set a" "bucket dl d < - int BINS_HIST \<or> int BINS_HIST \<le> bucket dl d"
  shows "\<not> order_ok dl a"
  using assms by (fastforce simp: order_ok_def)

text \<open>
  Claim C2, as the code has it. \<^verbatim>\<open>create_histograms\<close> has no policy for a bucket
  index out of range: nothing is discarded, clipped or counted. On an input of the
  shape \<open>wf_input\<close>, a record of some order up to \<open>k_reflec\<close> whose bucket index is at
  least \<open>BINS_HIST\<close> (or below \<open>- BINS_HIST\<close>) makes the call end with numpy's
  IndexError, and no histogram is returned. When every bucket index lies within
  \<open>[0, BINS_HIST)\<close> the call returns, and bin \<open>b\<close> of the histogram of an order holds the
  sum of the powers of exactly those records of the order whose bucket index is \<open>b\<close>.
\<close>

theorem create_histograms_range_behaviour:
  assumes "wf_input s h_k k n"
  shows "((\<exists>i\<le>k. \<exists>(p, d)\<in>set (s ! (h_k ! i)).
             bucket (delay_los_of s h_k) d < - int BINS_HIST
             \<or> int BINS_HIST \<le> bucket (delay_los_of s h_k) d)
          \<longrightarrow> (\<exists>s'. create_histograms s h_k k n = (Inl IndexError, s')))
       \<and> ((\<forall>i\<le>k. \<forall>(p, d)\<in>set (s ! (h_k ! i)).
             0 \<le> bucket (delay_los_of s h_k) d \<and> bucket (delay_los_of s h_k) d < int BINS_HIST)
          \<longrightarrow> (\<exists>res s'. create_histograms s h_k k n = (Inr res, s')
                \<and> (\<forall>i\<le>k. \<forall>b<BINS_HIST. hist_power_time_out res ! b ! i
                      = sum_list (map fst (filter (\<lambda>(p, d). bucket (delay_los_of s h_k) d = int b)
                                             (s ! (h_k ! i)))))))"
proof (intro conjI impI)
  assume "\<exists>i\<le>k. \<exists>(p, d)\<in>set (s ! (h_k ! i)).
             bucket (delay_los_of s h_k) d < - int BINS_HIST
             \<or> int BINS_HIST \<le> bucket (delay_los_of s h_k) d"
  then have "\<exists>i\<le>k. \<not> order_ok (delay_los_of s h_k) (s ! (h_k ! i))"
    using out_of_range_not_ok by blast
  then show "\<exists>s'. create_histograms s h_k k n = (Inl IndexError, s')"
    by (rule create_histograms_bad [OF assms])
next
  define dl where "dl = delay_los_of s h_k"
  assume rng: "\<forall>i\<le>k. \<forall>(p, d)\<in>set (s ! (h_k ! i)).
             0 \<le> bucket (delay_los_of s h_k) d \<and> bucket (delay_los_of s h_k) d < int BINS_HIST"
  then have ok: "\<forall>i\<le>k. order_ok dl (s ! (h_k ! i))"
    using in_range_order_ok unfolding dl_def by blast
  obtain st where st: "hinv s h_k dl k (k + 1) st"
    "create_histograms s h_k k n =
               (Inr \<lparr> hist_power_time_out = hist_power_time st,
                       total_ht = map sum_list (hist_power_time st),
                       time_scale = time_scale_of,
                       h_power_out = h_power st \<rparr>, heap st)"
    using create_histograms_ok [OF assms] ok unfolding dl_def by blast
  have hv: "\<forall>b<BINS_HIST. \<forall>i\<le>k. hist_power_time st ! b ! i = binsum dl b (s ! (h_k ! i))"
    using st(1) by (simp add: hinv_def)
  have "hist_power_time st ! b ! i
          = sum_list (map fst (filter (\<lambda>(p, d). bucket dl d = int b) (s ! (h_k ! i))))"
    if "i \<le> k" "b < BINS_HIST" for i b
    using hv that rng binsum_in_range [of "s ! (h_k ! i)" dl b] unfolding dl_def by simp
  then show "\<exists>res s'. create_histograms s h_k k n = (Inr res, s')
                \<and> (\<forall>i\<le>k. \<forall>b<BINS_HIST. hist_power_time_out res ! b ! i
                      = sum_list (map fst (filter (\<lambda>(p, d). bucket (delay_los_of s h_k) d = int b)
                                             (s ! (h_k ! i)))))"
    using st(2) unfolding dl_def by simp
qed

lemma hist_overflow_wf: "wf_input hist_overflow [0, 1] 1 1"
  by (simp add: wf_input_def hist_overflow_def le_one_cases)

lemma hist_overflow_out_of_range:
  "\<exists>i\<le>1. \<exists>(p, d)\<in>set (hist_overflow ! ([0, 1] ! i)).
      bucket (delay_los_of hist_overflow [0, 1]) d < - int BINS_HIST
      \<or> int BINS_HIST \<le> bucket (delay_los_of hist_overflow [0, 1]) d"
proof -
  have "int BINS_HIST \<le> bucket (delay_los_of hist_overflow [0, 1]) (6)"
    by (simp add: delay_los_of_def hist_overflow_def bucket_def TIME_RESOLUTION_def BINS_HIST_def)
  moreover have "(1 / 2, 6) \<in> set (hist_overflow ! ([0, 1] ! 1))"
    by (simp add: hist_overflow_def)
  ultimately show ?thesis by blast
qed

text \<open>
  Claim C2, as the code has it, at the two example inputs: the bucket index
  \<open>5 * 10 ^ 9\<close> ends the call, the bucket index 3 is accumulated in bin 3.
\<close>

theorem create_histograms_range_behaviour_witness:
  "(\<exists>s'. create_histograms hist_overflow [0, 1] 1 1 = (Inl IndexError, s'))
   \<and> (\<exists>res s'. create_histograms hist_example [0, 1] 1 1 = (Inr res, s')
         \<and> hist_power_time_out res ! 3 ! 1 = 1 / 2)"
proof -
  have a: "\<exists>s'. create_histograms hist_overflow [0, 1] 1 1 = (Inl IndexError, s')"
    using create_histograms_range_behaviour [OF hist_overflow_wf] hist_overflow_out_of_range
    by blast
  obtain res s' where r: "create_histograms hist_example [0, 1] 1 1 = (Inr res, s')"
    "\<forall>i\<le>1. \<forall>b<BINS_HIST. hist_power_time_out res ! b ! i
        = sum_list (map fst (filter (\<lambda>(p, d). bucket (delay_los_of hist_example [0, 1]) d = int b)
                               (hist_example ! ([0, 1] ! i))))"
    using create_histograms_range_behaviour [OF hist_example_wf] hist_example_in_range
    by blast
  have "hist_power_time_out res ! 3 ! 1
        = sum_list (map fst (filter (\<lambda>(p, d). bucket (delay_los_of hist_example [0, 1]) d = int 3)
                               (hist_example ! ([0, 1] ! 1))))"
    using r(2) by (simp add: BINS_HIST_def)
  also have "\<dots> = 1 / 2"
    by (simp add: delay_los_of_def hist_example_def bucket_def TIME_RESOLUTION_def)
  finally have "hist_power_time_out res ! 3 ! 1 = 1 / 2" .
  then show ?thesis using a r(1) by blast
qed

text \<open>
  Claim C2 as stated (a record whose bucket index is at least \<open>BINS_HIST\<close> is discarded
  or clipped into the last bin, and counted) fails: with one order-1 record one second
  after the direct one (the delays 5 and 6 are binary64 numbers, and the bucket index
  \<open>5 * 10 ^ 9\<close> is far beyond the last bin), the call returns no histogram but ends with
  IndexError.
\<close>

theorem create_histograms_overflow_counterexample:
  "fst (create_histograms hist_overflow [0, 1] 1 1) = Inl IndexError"
proof -
  have "\<exists>i\<le>1. \<not> order_ok (delay_los_of hist_overflow [0, 1]) (hist_overflow ! ([0, 1] ! i))"
    using hist_overflow_out_of_range out_of_range_not_ok by blast
  then obtain s' where "create_histograms hist_overflow [0, 1] 1 1 = (Inl IndexError, s')"
    using create_histograms_bad [OF hist_overflow_wf] by blast
  then show ?thesis by simp
qed

text \<open>
  Claim C3. \<^verbatim>\<open>create_histograms\<close> writes into the arrays it is given: after a call
  that returns, on an input of the shape \<open>wf_input\<close>, the delay column of every order
  \<open>i \<le> k_reflec\<close> holds the bucket indices \<open>floor((delay - delay_LOS) / TIME_RESOLUTION)\<close>
  in place of the delays, the powers being unchanged. Unless the line-of-sight delay is
  0, the order-0 array therefore differs from what the propagator produced, and any
  later reader of \<^verbatim>\<open>h_k\<close> sees other data.
\<close>

theorem create_histograms_mutates_input:
  assumes "wf_input s h_k k n" and "create_histograms s h_k k n = (Inr res, s')"
  shows "(\<forall>i\<le>k. s' ! (h_k ! i)
            = map (\<lambda>(p, d). (p, of_int \<lfloor>(d - delay_los_of s h_k) / TIME_RESOLUTION\<rfloor>))
                  (s ! (h_k ! i)))
       \<and> (delay_los_of s h_k \<noteq> 0 \<longrightarrow> s' ! (h_k ! 0) \<noteq> s ! (h_k ! 0))"
proof -
  define dl where "dl = delay_los_of s h_k"
  have ok: "\<forall>i\<le>k. order_ok dl (s ! (h_k ! i))"
  proof (rule ccontr)
    assume "\<not> (\<forall>i\<le>k. order_ok dl (s ! (h_k ! i)))"
    then have "\<exists>i\<le>k. \<not> order_ok (delay_los_of s h_k) (s ! (h_k ! i))"
      unfolding dl_def by blast
    then have "\<exists>s'. create_histograms s h_k k n = (Inl IndexError, s')"
      by (rule create_histograms_bad [OF assms(1)])
    then show False using assms(2) by auto
  qed
  obtain st where st: "hinv s h_k dl k (k + 1) st"
    "create_histograms s h_k k n =
               (Inr \<lparr> hist_power_time_out = hist_power_time st,
                       total_ht = map sum_list (hist_power_time st),
                       time_scale = time_scale_of,
                       h_power_out = h_power st \<rparr>, heap st)"
    using create_histograms_ok [OF assms(1)] ok unfolding dl_def by blast
  have s': "s' = heap st" using st(2) assms(2) by simp
  have hp: "\<forall>i\<le>k. s' ! (h_k ! i) = binned dl (s ! (h_k ! i))"
    using st(1) by (simp add: hinv_def s')
  have first: "\<forall>i\<le>k. s' ! (h_k ! i)
            = map (\<lambda>(p, d). (p, of_int \<lfloor>(d - dl) / TIME_RESOLUTION\<rfloor>)) (s ! (h_k ! i))"
    using hp by (simp add: binned_def bucket_def)
  have "s' ! (h_k ! 0) \<noteq> s ! (h_k ! 0)" if nz: "dl \<noteq> 0"
  proof
    assume eq: "s' ! (h_k ! 0) = s ! (h_k ! 0)"
    have "length (s ! (h_k ! 0)) = n ^ 0" using assms(1) by (simp add: wf_input_def)
    then have l: "0 < length (s ! (h_k ! 0))" by simp
    have "s' ! (h_k ! 0) ! 0 = binned dl (s ! (h_k ! 0)) ! 0" using hp by simp
    also have "\<dots> = (fst (s ! (h_k ! 0) ! 0), of_int (bucket dl dl))"
      using l by (simp add: nth_binned dl_def delay_los_of_def)
    finally have "snd (s' ! (h_k ! 0) ! 0) = 0" by (simp add: bucket_def)
    moreover have "snd (s ! (h_k ! 0) ! 0) = dl" by (simp add: dl_def delay_los_of_def)
    ultimately show False using eq nz by simp
  qed
  then show ?thesis using first unfolding dl_def by blast
qed

text \<open>
  Claim C3 at the example input: the delays 5 and 5 + 3 time steps have become 0 and 3.
\<close>

theorem create_histograms_mutates_input_witness:
  "snd (create_histograms hist_example [0, 1] 1 1) ! 0 = [(1, 0)]
   \<and> snd (create_histograms hist_example [0, 1] 1 1) ! 1 = [(1 / 2, 3)]
   \<and> snd (create_histograms hist_example [0, 1] 1 1) ! 0 \<noteq> hist_example ! 0"
proof -
  have ok: "\<forall>i\<le>1. order_ok (delay_los_of hist_example [0, 1]) (hist_example ! ([0, 1] ! i))"
    using hist_example_in_range in_range_order_ok by blast
  obtain res s' where r: "create_histograms hist_example [0, 1] 1 1 = (Inr res, s')"
    using create_histograms_ok [OF hist_example_wf ok] by blast
  have m: "(\<forall>i\<le>1. s' ! ([0, 1] ! i)
            = map (\<lambda>(p, d). (p, of_int \<lfloor>(d - delay_los_of hist_example [0, 1]) / TIME_RESOLUTION\<rfloor>))
                  (hist_example ! ([0, 1] ! i)))
       \<and> (delay_los_of hist_example [0, 1] \<noteq> 0 \<longrightarrow> s' ! ([0, 1] ! 0) \<noteq> hist_example ! ([0, 1] ! 0))"
    using create_histograms_mutates_input [OF hist_example_wf r] .
  have "s' ! 0 = [(1, 0)]"
    using m by (simp add: le_one_cases delay_los_of_def hist_example_def)
  moreover have "s' ! 1 = [(1 / 2, 3)]"
    using m by (simp add: le_one_cases delay_los_of_def hist_example_def TIME_RESOLUTION_def)
  moreover have "s' ! 0 \<noteq> hist_example ! 0"
    using m by (simp add: delay_los_of_def hist_example_def)
  ultimately show ?thesis unfolding r snd_conv by blast
qed

subsection \<open>Geometric parameters\<close>

lemma set_entry_apply:
  "set_entry M i j v a b = (if a = i \<and> b = j then v else M a b)"
  by (simp add: set_entry_def)

lemma set_entry_other:
  "\<not> (a = i \<and> b = e) \<Longrightarrow> set_entry D i e u a b = D a b"
  by (cases "a = i"; cases "b = e"; simp add: set_entry_apply)

lemma set_entry2_other:
  "\<not> (a = i \<and> b = e) \<Longrightarrow> \<not> (a = e \<and> b = i) \<Longrightarrow>
     set_entry (set_entry D i e u) e i v a b = D a b"
  by (simp add: set_entry_other)

lemma set_entry2_first: "i \<noteq> e \<Longrightarrow> set_entry (set_entry D i e u) e i v i e = u"
  by (simp add: set_entry_apply)

lemma set_entry2_second: "set_entry (set_entry D i e u) e i v e i = v"
  by (simp add: set_entry_apply)

lemma abs_component_le_norm3:
  "\<bar>a\<bar> \<le> norm3 (a, b, c) \<and> \<bar>b\<bar> \<le> norm3 (a, b, c) \<and> \<bar>c\<bar> \<le> norm3 (a, b, c)"
proof -
  have "\<bar>a\<bar> = sqrt (a * a)" by simp
  also have "\<dots> \<le> sqrt (a * a + b * b + c * c)" by (rule real_sqrt_le_mono) simp
  finally have 1: "\<bar>a\<bar> \<le> norm3 (a, b, c)" by (simp add: norm3_def dot_def)
  have "\<bar>b\<bar> = sqrt (b * b)" by simp
  also have "\<dots> \<le> sqrt (a * a + b * b + c * c)" by (rule real_sqrt_le_mono) simp
  finally have 2: "\<bar>b\<bar> \<le> norm3 (a, b, c)" by (simp add: norm3_def dot_def)
  have "\<bar>c\<bar> = sqrt (c * c)" by simp
  also have "\<dots> \<le> sqrt (a * a + b * b + c * c)" by (rule real_sqrt_le_mono) simp
  finally have 3: "\<bar>c\<bar> \<le> norm3 (a, b, c)" by (simp add: norm3_def dot_def)
  show ?thesis using 1 2 3 by blast
qed

lemma norm3_nonneg: "0 \<le> norm3 v"
  by (cases v) (simp add: norm3_def dot_def)

lemma unit_component_bound:
  assumes "norm3 v \<noteq> 0" "\<bar>t\<bar> \<le> norm3 v"
  shows "\<bar>1 / norm3 v * t\<bar> \<le> 1"
proof -
  have pos: "0 < norm3 v" using assms(1) norm3_nonneg [of v] by linarith
  have "\<bar>1 / norm3 v * t\<bar> = \<bar>t\<bar> / norm3 v" using pos by (simp add: abs_mult)
  also have "\<dots> \<le> 1" using pos assms(2) by simp
  finally show ?thesis .
qed

lemma dot_unit_normal_bound:
  assumes "norm3 v \<noteq> 0" "n \<in> set NORMAL_VECTOR_WALL"
  shows "\<bar>dot (vscale (1 / norm3 v) v) n\<bar> \<le> 1"
proof -
  obtain a b c where v: "v = (a, b, c)" by (cases v)
  have na: "\<bar>a\<bar> \<le> norm3 v" and nb: "\<bar>b\<bar> \<le> norm3 v" and nc: "\<bar>c\<bar> \<le> norm3 v"
    using abs_component_le_norm3 [of a b c] unfolding v by blast+
  have ba: "\<bar>1 / norm3 v * a\<bar> \<le> 1" by (rule unit_component_bound [OF assms(1) na])
  have bb: "\<bar>1 / norm3 v * b\<bar> \<le> 1" by (rule unit_component_bound [OF assms(1) nb])
  have bc: "\<bar>1 / norm3 v * c\<bar> \<le> 1" by (rule unit_component_bound [OF assms(1) nc])
  have "n = (0, 0, -1) \<or> n = (0, 1, 0) \<or> n = (1, 0, 0) \<or> n = (0, -1, 0) \<or> n = (-1, 0, 0)
          \<or> n = (0, 0, 1)"
    using assms(2) by (auto simp: NORMAL_VECTOR_WALL_def)
  then show ?thesis
    using ba bb bc by (auto simp: v dot_def vscale_def)
qed

lemma dot_vscale_neg: "dot (vscale (-1) u) n = - dot u n"
  by (cases u; cases n) (simp add: dot_def vscale_def)

lemma normal_of_wall_in_set: "normal_of_wall w = Inr n \<Longrightarrow> n \<in> set NORMAL_VECTOR_WALL"
  by (auto simp: normal_of_wall_def np_index_def bnd_def split: if_splits)

lemma cos_2points_bounds:
  assumes "cos_2points v1 n1 v2 n2 = Inr (cphi, cth)"
    "n1 \<in> set NORMAL_VECTOR_WALL" "n2 \<in> set NORMAL_VECTOR_WALL"
  shows "- 1 \<le> cphi \<and> cphi \<le> 1 \<and> - 1 \<le> cth \<and> cth \<le> 1"
proof -
  have nz: "norm3 (vminus v1 v2) \<noteq> 0" using assms(1) by (auto simp: cos_2points_def split: if_splits)
  have cphi: "cphi = - dot (vscale (1 / norm3 (vminus v1 v2)) (vminus v1 v2)) n1"
    and cth: "cth = dot (vscale (1 / norm3 (vminus v1 v2)) (vminus v1 v2)) n2"
    using assms(1) nz by (simp_all add: cos_2points_def Let_def dot_vscale_neg)
  have "\<bar>cphi\<bar> \<le> 1" using dot_unit_normal_bound [OF nz assms(2)] by (simp add: cphi)
  moreover have "\<bar>cth\<bar> \<le> 1" using dot_unit_normal_bound [OF nz assms(3)] by (simp add: cth)
  ultimately show ?thesis by (auto simp: abs_le_iff)
qed

lemma pair_body_same:
  assumes "i < length ap" "e < length ap" "ap ! i = (x1, y1, z1, w1)" "ap ! e = (x2, y2, z2, w2)"
    "w1 = w2"
  shows "pair_body ap i e P = Inr (P\<lparr> distance := set_entry (distance P) i e 0,
                      cos_angle := set_entry (cos_angle P) i e 0 \<rparr>)"
  using assms by (simp add: pair_body_def py_get_def)

lemma pair_body_diff:
  assumes "i < length ap" "e < length ap" "ap ! i = (x1, y1, z1, w1)" "ap ! e = (x2, y2, z2, w2)"
    "w1 \<noteq> w2" "normal_of_wall (py_int_r w1) = Inr n1" "normal_of_wall (py_int_r w2) = Inr n2"
    "cos_2points (x1, y1, z1) n1 (x2, y2, z2) n2 = Inr (cphi, cth)"
  shows "pair_body ap i e P =
           Inr (P\<lparr> distance := set_entry (set_entry (distance P) i e
                                      (euclidean (x1, y1, z1) (x2, y2, z2))) e i
                                      (euclidean (x1, y1, z1) (x2, y2, z2)),
                      cos_angle := set_entry (set_entry (cos_angle P) i e cphi) e i cth \<rparr>)"
  using assms by (simp add: pair_body_def py_get_def Let_def)

lemma pair_body_pinv:
  assumes "pair_body ap i e P = Inr P'" "pinv ap P"
  shows "pinv ap P'"
proof -
  have il: "i < length ap" and el: "e < length ap"
    using assms(1) by (auto simp: pair_body_def py_get_def bnd_def split: if_splits sum.splits)
  obtain x1 y1 z1 w1 where c1: "ap ! i = (x1, y1, z1, w1)" by (cases "ap ! i")
  obtain x2 y2 z2 w2 where c2: "ap ! e = (x2, y2, z2, w2)" by (cases "ap ! e")
  have dsym: "distance P a b = distance P b a" for a b
    using assms(2) by (simp add: pinv_def)
  have zero: "distance P a b = 0 \<and> cos_angle P a b = 0"
    if "label (ap ! a) = label (ap ! b)" for a b
    using assms(2) that by (simp add: pinv_def)
  have bnds: "- 1 \<le> cos_angle P a b \<and> cos_angle P a b \<le> 1" for a b
    using assms(2) by (simp add: pinv_def)
  show ?thesis
  proof (cases "w1 = w2")
    case True
    have P': "P' = P\<lparr> distance := set_entry (distance P) i e 0,
                      cos_angle := set_entry (cos_angle P) i e 0 \<rparr>"
      using assms(1) pair_body_same [OF il el c1 c2 True, of P] by simp
    have same: "label (ap ! i) = label (ap ! e)" using True by (simp add: label_def c1 c2)
    have d0: "distance P i e = 0" "cos_angle P i e = 0"
      using zero [OF same] by simp_all
    have "distance P' a b = distance P a b" for a b
      by (cases "a = i \<and> b = e") (simp_all add: P' set_entry_other set_entry_apply d0)
    then have dd: "distance P' = distance P" by (intro ext)
    have "cos_angle P' a b = cos_angle P a b" for a b
      by (cases "a = i \<and> b = e") (simp_all add: P' set_entry_other set_entry_apply d0)
    then have cc: "cos_angle P' = cos_angle P" by (intro ext)
    show ?thesis using assms(2) unfolding pinv_def dd cc .
  next
    case False
    obtain n1 where n1: "normal_of_wall (py_int_r w1) = Inr n1"
      using assms(1) il el False
      by (cases "normal_of_wall (py_int_r w1)") (simp_all add: pair_body_def py_get_def c1 c2 Let_def)
    obtain n2 where n2: "normal_of_wall (py_int_r w2) = Inr n2"
      using assms(1) il el False n1
      by (cases "normal_of_wall (py_int_r w2)") (simp_all add: pair_body_def py_get_def c1 c2 Let_def)
    obtain cphi cth where cs: "cos_2points (x1, y1, z1) n1 (x2, y2, z2) n2 = Inr (cphi, cth)"
      using assms(1) il el False n1 n2
      by (cases "cos_2points (x1, y1, z1) n1 (x2, y2, z2) n2")
         (auto simp: pair_body_def py_get_def c1 c2 Let_def)
    define d where "d = euclidean (x1, y1, z1) (x2, y2, z2)"
    have P': "P' = P\<lparr> distance := set_entry (set_entry (distance P) i e d) e i d,
                      cos_angle := set_entry (set_entry (cos_angle P) i e cphi) e i cth \<rparr>"
      using assms(1) pair_body_diff [OF il el c1 c2 False n1 n2 cs, of P] by (simp add: d_def)
    have cb: "- 1 \<le> cphi \<and> cphi \<le> 1 \<and> - 1 \<le> cth \<and> cth \<le> 1"
      using cos_2points_bounds [OF cs normal_of_wall_in_set [OF n1] normal_of_wall_in_set [OF n2]] .
    have diff: "label (ap ! i) \<noteq> label (ap ! e)" using False by (simp add: label_def c1 c2)
    then have ne: "i \<noteq> e" by auto
    have dP': "distance P' = set_entry (set_entry (distance P) i e d) e i d"
      and cP': "cos_angle P' = set_entry (set_entry (cos_angle P) i e cphi) e i cth"
      by (simp_all add: P')
    have s1: "distance P' a b = distance P' b a" for a b
    proof -
      consider (ie) "a = i \<and> b = e" | (ei) "a = e \<and> b = i"
        | (other) "\<not> (a = i \<and> b = e)" "\<not> (a = e \<and> b = i)" by blast
      then show ?thesis
      proof cases
        case ie
        then show ?thesis unfolding dP' using ne by (simp add: set_entry2_first set_entry2_second)
      next
        case ei
        then show ?thesis unfolding dP' using ne by (simp add: set_entry2_first set_entry2_second)
      next
        case other
        have "distance P' a b = distance P a b"
          unfolding dP' by (rule set_entry2_other [OF other])
        moreover have "distance P' b a = distance P b a"
          unfolding dP' by (rule set_entry2_other) (use other in blast)+
        ultimately show ?thesis using dsym [of a b] by simp
      qed
    qed
    have s2: "distance P' a b = 0 \<and> cos_angle P' a b = 0"
      if h: "label (ap ! a) = label (ap ! b)" for a b
    proof -
      have o: "\<not> (a = i \<and> b = e)" "\<not> (a = e \<and> b = i)" using h diff by auto
      have "distance P' a b = distance P a b"
        unfolding dP' by (rule set_entry2_other [OF o])
      moreover have "cos_angle P' a b = cos_angle P a b"
        unfolding cP' by (rule set_entry2_other [OF o])
      ultimately show ?thesis using zero [OF h] by simp
    qed
    have s3: "- 1 \<le> cos_angle P' a b \<and> cos_angle P' a b \<le> 1" for a b
    proof -
      consider (ie) "a = i \<and> b = e" | (ei) "a = e \<and> b = i"
        | (other) "\<not> (a = i \<and> b = e)" "\<not> (a = e \<and> b = i)" by blast
      then show ?thesis
      proof cases
        case ie
        then show ?thesis unfolding cP' using ne cb by (simp add: set_entry2_first)
      next
        case ei
        then show ?thesis unfolding cP' using cb by (simp add: set_entry2_second)
      next
        case other
        have "cos_angle P' a b = cos_angle P a b"
          unfolding cP' by (rule set_entry2_other [OF other])
        then show ?thesis using bnds [of a b] by simp
      qed
    qed
    show ?thesis unfolding pinv_def using s1 s2 s3 by blast
  qed
qed

lemma inner_loop_pinv:
  "inner_loop ap i es P = Inr P' \<Longrightarrow> pinv ap P \<Longrightarrow> pinv ap P'"
proof (induction es arbitrary: P)
  case Nil
  then show ?case by simp
next
  case (Cons e es)
  obtain P1 where P1: "pair_body ap i e P = Inr P1"
    using Cons.prems(1) by (cases "pair_body ap i e P") simp_all
  have "pinv ap P1" using pair_body_pinv [OF P1 Cons.prems(2)] .
  moreover have "inner_loop ap i es P1 = Inr P'" using Cons.prems(1) P1 by simp
  ultimately show ?case using Cons.IH by blast
qed

lemma outer_loop_pinv:
  "outer_loop ap n is P = Inr P' \<Longrightarrow> pinv ap P \<Longrightarrow> pinv ap P'"
proof (induction "is" arbitrary: P)
  case Nil
  then show ?case by simp
next
  case (Cons i "is")
  obtain P1 where P1: "inner_loop ap i [i + 1..<n] P = Inr P1"
    using Cons.prems(1) by (cases "inner_loop ap i [i + 1..<n] P") simp_all
  have "pinv ap P1" using inner_loop_pinv [OF P1 Cons.prems(2)] .
  moreover have "outer_loop ap n is P1 = Inr P'" using Cons.prems(1) P1 by simp
  ultimately show ?case using Cons.IH by blast
qed

lemma make_parameters_pinv:
  assumes "make_parameters ap x_lim y_lim z_lim nx ny nz = Inr P"
  shows "pinv ap P"
proof -
  have "pinv ap \<lparr> distance = (\<lambda>i j. 0), cos_angle = (\<lambda>i j. 0) \<rparr>"
    by (simp add: pinv_def)
  then show ?thesis
    using assms outer_loop_pinv
    by (auto simp: make_parameters_def Let_def split: if_splits)
qed

lemma norm3_zero_iff: "norm3 (vminus u v) = 0 \<longleftrightarrow> u = v"
proof -
  obtain a b c where u: "u = (a, b, c)" by (cases u)
  obtain a' b' c' where v: "v = (a', b', c')" by (cases v)
  have "(a - a') * (a - a') + (b - b') * (b - b') + (c - c') * (c - c') = 0
          \<longleftrightarrow> a = a' \<and> b = b' \<and> c = c'"
  proof
    assume h: "(a - a') * (a - a') + (b - b') * (b - b') + (c - c') * (c - c') = 0"
    have "0 \<le> (a - a') * (a - a')" "0 \<le> (b - b') * (b - b')" "0 \<le> (c - c') * (c - c')"
      by simp_all
    then have "(a - a') * (a - a') = 0 \<and> (b - b') * (b - b') = 0 \<and> (c - c') * (c - c') = 0"
      using h by linarith
    then show "a = a' \<and> b = b' \<and> c = c'" by simp
  next
    assume "a = a' \<and> b = b' \<and> c = c'"
    then show "(a - a') * (a - a') + (b - b') * (b - b') + (c - c') * (c - c') = 0" by simp
  qed
  then show ?thesis by (simp add: u v norm3_def dot_def vminus_def)
qed

lemma normal_of_wall_ok:
  assumes "- 6 \<le> w" "w < 6"
  shows "\<exists>n. normal_of_wall w = Inr n"
proof -
  have l: "length NORMAL_VECTOR_WALL = 6" by (simp add: NORMAL_VECTOR_WALL_def)
  have "np_index 6 w = Inr (nat w) \<or> np_index 6 w = Inr (nat (w + 6))"
    using assms by (cases "0 \<le> w") (simp_all add: np_index_def)
  then obtain k where "np_index 6 w = Inr k" by blast
  then have "normal_of_wall w = Inr (NORMAL_VECTOR_WALL ! k)"
    by (simp add: normal_of_wall_def l)
  then show ?thesis by blast
qed

lemma pair_body_ok:
  assumes ok: "cells_ok ap n" and i: "i < n" and e: "e < n"
  shows "\<exists>P'. pair_body ap i e P = Inr P'"
proof -
  have il: "i < length ap" and el: "e < length ap" using ok i e by (simp_all add: cells_ok_def)
  obtain x1 y1 z1 w1 where c1: "ap ! i = (x1, y1, z1, w1)" by (cases "ap ! i")
  obtain x2 y2 z2 w2 where c2: "ap ! e = (x2, y2, z2, w2)" by (cases "ap ! e")
  show ?thesis
  proof (cases "w1 = w2")
    case True
    then show ?thesis using pair_body_same [OF il el c1 c2 True] by blast
  next
    case False
    have "- 6 \<le> py_int_r (label (ap ! i)) \<and> py_int_r (label (ap ! i)) < 6"
      using ok i by (simp add: cells_ok_def)
    then obtain n1 where n1: "normal_of_wall (py_int_r w1) = Inr n1"
      using normal_of_wall_ok [of "py_int_r w1"] by (auto simp: label_def c1)
    have "- 6 \<le> py_int_r (label (ap ! e)) \<and> py_int_r (label (ap ! e)) < 6"
      using ok e by (simp add: cells_ok_def)
    then obtain n2 where n2: "normal_of_wall (py_int_r w2) = Inr n2"
      using normal_of_wall_ok [of "py_int_r w2"] by (auto simp: label_def c2)
    have "label (ap ! i) \<noteq> label (ap ! e)" using False by (simp add: label_def c1 c2)
    then have "xyz (ap ! i) \<noteq> xyz (ap ! e)" using ok i e by (simp add: cells_ok_def)
    then have "(x1, y1, z1) \<noteq> (x2, y2, z2)" by (simp add: xyz_def c1 c2)
    then have nz: "norm3 (vminus (x1, y1, z1) (x2, y2, z2)) \<noteq> 0"
      using norm3_zero_iff [of "(x1, y1, z1)" "(x2, y2, z2)"] by simp
    obtain cphi cth where cs: "cos_2points (x1, y1, z1) n1 (x2, y2, z2) n2 = Inr (cphi, cth)"
      using nz by (simp add: cos_2points_def Let_def)
    show ?thesis using pair_body_diff [OF il el c1 c2 False n1 n2 cs] by blast
  qed
qed

lemma inner_loop_ok:
  assumes ok: "cells_ok ap n" and i: "i < n"
  shows "\<forall>e\<in>set es. e < n \<Longrightarrow> \<exists>P'. inner_loop ap i es P = Inr P'"
proof (induction es arbitrary: P)
  case Nil
  then show ?case by simp
next
  case (Cons e es)
  obtain P1 where P1: "pair_body ap i e P = Inr P1"
    using pair_body_ok [OF ok i, of e P] Cons.prems by auto
  obtain P' where "inner_loop ap i es P1 = Inr P'"
    using Cons.IH [of P1] Cons.prems by auto
  then show ?case using P1 by simp
qed

lemma outer_loop_ok:
  assumes ok: "cells_ok ap n"
  shows "\<forall>i\<in>set is. i < n \<Longrightarrow> \<exists>P'. outer_loop ap n is P = Inr P'"
proof (induction "is" arbitrary: P)
  case Nil
  then show ?case by simp
next
  case (Cons i "is")
  have i: "i < n" using Cons.prems by simp
  obtain P1 where P1: "inner_loop ap i [i + 1..<n] P = Inr P1"
    using inner_loop_ok [OF ok i, of "[i + 1..<n]" P] by auto
  obtain P' where "outer_loop ap n is P1 = Inr P'"
    using Cons.IH [of P1] Cons.prems by auto
  then show ?case using P1 by simp
qed

lemma make_parameters_ok:
  assumes "0 \<le> 2 * nx * ny + 2 * nz * nx + 2 * nz * ny"
    and "cells_ok ap (nat (2 * nx * ny + 2 * nz * nx + 2 * nz * ny))"
  shows "\<exists>P. make_parameters ap x_lim y_lim z_lim nx ny nz = Inr P \<and> pinv ap P"
proof -
  define n where "n = nat (2 * nx * ny + 2 * nz * nx + 2 * nz * ny)"
  obtain P where P: "outer_loop ap n [0..<n] \<lparr> distance = (\<lambda>i j. 0), cos_angle = (\<lambda>i j. 0) \<rparr> = Inr P"
    using outer_loop_ok [of ap n "[0..<n]"] assms(2) unfolding n_def by auto
  have m: "make_parameters ap x_lim y_lim z_lim nx ny nz = Inr P"
    using assms(1) P by (simp add: make_parameters_def Let_def n_def)
  show ?thesis using m make_parameters_pinv [OF m] by blast
qed

lemma on_wall_label:
  assumes "on_wall x_lim y_lim z_lim c"
  shows "- 6 \<le> py_int_r (label (real_column c)) \<and> py_int_r (label (real_column c)) < 6"
proof -
  obtain x y z w where c: "c = (x, y, z, w)" by (cases c)
  have "w = 0 \<or> w = 1 \<or> w = 2 \<or> w = 3 \<or> w = 4 \<or> w = 5"
    using assms by (auto simp: on_wall_def c)
  then show ?thesis
    by (auto simp: c label_def real_column_def py_int_r_def)
qed

lemma on_wall_distinct:
  assumes "on_wall x_lim y_lim z_lim c1" "on_wall x_lim y_lim z_lim c2"
    "0 < x_lim" "0 < y_lim" "0 < z_lim"
    "label (real_column c1) \<noteq> label (real_column c2)"
  shows "xyz (real_column c1) \<noteq> xyz (real_column c2)"
proof -
  obtain x1 y1 z1 w1 where c1: "c1 = (x1, y1, z1, w1)" by (cases c1)
  obtain x2 y2 z2 w2 where c2: "c2 = (x2, y2, z2, w2)" by (cases c2)
  have w: "w1 \<noteq> w2" using assms(6) by (auto simp: c1 c2 label_def real_column_def)
  have "(x1, y1, z1) \<noteq> (x2, y2, z2)"
    using assms(1-5) w unfolding on_wall_def c1 c2 by auto
  then show ?thesis by (simp add: c1 c2 xyz_def real_column_def)
qed

lemma tessellation_cells_ok:
  assumes "valid_room x_lim y_lim z_lim s"
  shows "\<exists>T. tessellation x_lim y_lim z_lim s = Inr T
           \<and> 0 \<le> 2 * tess_no_xtick T * tess_no_ytick T
                + 2 * tess_no_ztick T * tess_no_xtick T + 2 * tess_no_ztick T * tess_no_ytick T
           \<and> length (tess_array_points T) = nat (2 * tess_no_xtick T * tess_no_ytick T
                + 2 * tess_no_ztick T * tess_no_xtick T + 2 * tess_no_ztick T * tess_no_ytick T)
           \<and> cells_ok (map real_column (tess_array_points T))
                (nat (2 * tess_no_xtick T * tess_no_ytick T
                + 2 * tess_no_ztick T * tess_no_xtick T + 2 * tess_no_ztick T * tess_no_ytick T))"
proof -
  have pos: "0 < x_lim" "0 < y_lim" "0 < z_lim" using assms by (simp_all add: valid_room_def)
  obtain T where T: "tessellation x_lim y_lim z_lim s = Inr T"
    "\<forall>c\<in>set (tess_array_points T). on_wall x_lim y_lim z_lim c"
    "0 \<le> tess_no_points T"
    "length (tess_array_points T) = nat (tess_no_points T)"
    "tess_no_points T = 2 * tess_no_xtick T * tess_no_ytick T
                + 2 * tess_no_ztick T * tess_no_xtick T + 2 * tess_no_ztick T * tess_no_ytick T"
    using tessellation_cells [OF assms] by blast
  define ap where "ap = tess_array_points T"
  define n where "n = nat (tess_no_points T)"
  have len: "length ap = n" using T(4) by (simp add: ap_def n_def)
  have ow: "on_wall x_lim y_lim z_lim (ap ! i)" if "i < n" for i
    using T(2) that len by (simp add: ap_def [symmetric])
  have nth: "map real_column ap ! i = real_column (ap ! i)" if "i < n" for i
    using that len by simp
  have "n \<le> length (map real_column ap)" using len by simp
  moreover have "\<forall>i<n. - 6 \<le> py_int_r (label (map real_column ap ! i))
                    \<and> py_int_r (label (map real_column ap ! i)) < 6"
    using on_wall_label [OF ow] nth by simp
  moreover have "\<forall>i<n. \<forall>j<n. label (map real_column ap ! i) \<noteq> label (map real_column ap ! j)
                    \<longrightarrow> xyz (map real_column ap ! i) \<noteq> xyz (map real_column ap ! j)"
    using on_wall_distinct [OF ow ow pos] nth by simp
  ultimately have "cells_ok (map real_column ap) n" unfolding cells_ok_def by blast
  then show ?thesis using T(1,3,4,5) unfolding ap_def n_def by auto
qed

text \<open>
  Claim C9. For a room with positive dimensions and a scale factor in \<open>(0, 1]\<close>,
  \<^verbatim>\<open>tessellation\<close> returns a cell set and \<^verbatim>\<open>make_parameters\<close>, run on it, returns
  its two matrices. In them the distance is symmetric and zero on the diagonal, every
  cosine lies in \<open>[-1, 1]\<close>, and for two cells of the same wall (equal wall labels) both
  the distance entry and the cosine entry are zero.
\<close>

theorem make_parameters_matrix_invariants:
  assumes "valid_room x_lim y_lim z_lim scale_factor"
  shows "\<exists>T P. tessellation x_lim y_lim z_lim scale_factor = Inr T
           \<and> make_parameters (map real_column (tess_array_points T))
                (of_rat x_lim) (of_rat y_lim) (of_rat z_lim)
                (tess_no_xtick T) (tess_no_ytick T) (tess_no_ztick T) = Inr P
           \<and> (\<forall>i j. distance P i j = distance P j i \<and> distance P i i = 0
                  \<and> - 1 \<le> cos_angle P i j \<and> cos_angle P i j \<le> 1)
           \<and> (\<forall>i<length (tess_array_points T). \<forall>j<length (tess_array_points T).
                  label (real_column (tess_array_points T ! i))
                    = label (real_column (tess_array_points T ! j))
                  \<longrightarrow> distance P i j = 0 \<and> cos_angle P i j = 0)"
proof -
  obtain T where T: "tessellation x_lim y_lim z_lim scale_factor = Inr T"
    "0 \<le> 2 * tess_no_xtick T * tess_no_ytick T
                + 2 * tess_no_ztick T * tess_no_xtick T + 2 * tess_no_ztick T * tess_no_ytick T"
    "cells_ok (map real_column (tess_array_points T))
                (nat (2 * tess_no_xtick T * tess_no_ytick T
                + 2 * tess_no_ztick T * tess_no_xtick T + 2 * tess_no_ztick T * tess_no_ytick T))"
    using tessellation_cells_ok [OF assms] by blast
  define ap where "ap = map real_column (tess_array_points T)"
  obtain P where P: "make_parameters ap (of_rat x_lim) (of_rat y_lim) (of_rat z_lim)
                (tess_no_xtick T) (tess_no_ytick T) (tess_no_ztick T) = Inr P" "pinv ap P"
    using make_parameters_ok [OF T(2)] T(3) unfolding ap_def by blast
  have sym: "distance P i j = distance P j i" for i j using P(2) by (simp add: pinv_def)
  have zero: "distance P i j = 0 \<and> cos_angle P i j = 0"
    if "label (ap ! i) = label (ap ! j)" for i j
    using P(2) that by (simp add: pinv_def)
  have bnd: "- 1 \<le> cos_angle P i j \<and> cos_angle P i j \<le> 1" for i j
    using P(2) by (simp add: pinv_def)
  have diag: "distance P i i = 0" for i using zero [of i i] by simp
  have a: "\<forall>i j. distance P i j = distance P j i \<and> distance P i i = 0
                  \<and> - 1 \<le> cos_angle P i j \<and> cos_angle P i j \<le> 1"
    using sym diag bnd by blast
  have b: "\<forall>i<length (tess_array_points T). \<forall>j<length (tess_array_points T).
                  label (real_column (tess_array_points T ! i))
                    = label (real_column (tess_array_points T ! j))
                  \<longrightarrow> distance P i j = 0 \<and> cos_angle P i j = 0"
  proof (intro allI impI)
    fix i j
    assume i: "i < length (tess_array_points T)" and j: "j < length (tess_array_points T)"
      and l: "label (real_column (tess_array_points T ! i))
                    = label (real_column (tess_array_points T ! j))"
    have "label (ap ! i) = label (ap ! j)" using i j l by (simp add: ap_def)
    then show "distance P i j = 0 \<and> cos_angle P i j = 0" by (rule zero)
  qed
  show ?thesis using T(1) P(1) a b unfolding ap_def by blast
qed

lemma tessellation_cube:
  "tessellation 2 2 2 1 =
     Inr \<lparr> tess_array_points = cube_cells,
           tess_no_xtick = 1, tess_no_ytick = 1, tess_no_ztick = 1,
           tess_init_index = [0, 1, 2, 3, 4, 5], tess_delta_A = 1 / 50, tess_no_points = 6 \<rparr>"
  by (simp add: tessellation_def delta_Lmax_cube py_truediv_def py_int_def np_zeros4_def Let_def
      init_index_of_def fill_walls_def py_range_def eval_nat_numeral cube_cells_def)

lemma make_parameters_cube:
  "make_parameters (map real_column cube_cells) 2 2 2 1 1 1 = Inr cube_params"
proof -
  have "\<exists>P. make_parameters (map real_column cube_cells) 2 2 2 1 1 1 = Inr P"
    by (simp add: make_parameters_def cube_cells_def real_column_def upt_conv_Cons pair_body_def
        py_get_def normal_of_wall_def np_index_def py_int_r_def NORMAL_VECTOR_WALL_def
        cos_2points_def euclidean_def norm3_def dot_def vminus_def vscale_def set_entry_def Let_def)
  then show ?thesis by (auto simp: cube_params_def)
qed

lemma cube_params_values:
  "distance cube_params 0 5 = 2" "cos_angle cube_params 0 5 = 1" "cos_angle cube_params 5 0 = 1"
  "distance cube_params 0 0 = 0" "distance cube_params 5 0 = 2" "cos_angle cube_params 0 0 = 0"
proof -
  have "\<exists>P. make_parameters (map real_column cube_cells) 2 2 2 1 1 1 = Inr P
          \<and> distance P 0 5 = 2 \<and> cos_angle P 0 5 = 1 \<and> cos_angle P 5 0 = 1
          \<and> distance P 0 0 = 0 \<and> distance P 5 0 = 2 \<and> cos_angle P 0 0 = 0"
    by (simp add: make_parameters_def cube_cells_def real_column_def upt_conv_Cons pair_body_def
        py_get_def normal_of_wall_def np_index_def py_int_r_def NORMAL_VECTOR_WALL_def
        cos_2points_def euclidean_def norm3_def dot_def vminus_def vscale_def set_entry_def Let_def)
  then have v: "distance cube_params 0 5 = 2 \<and> cos_angle cube_params 0 5 = 1
          \<and> cos_angle cube_params 5 0 = 1 \<and> distance cube_params 0 0 = 0
          \<and> distance cube_params 5 0 = 2 \<and> cos_angle cube_params 0 0 = 0"
    using make_parameters_cube by auto
  show "distance cube_params 0 5 = 2" "cos_angle cube_params 0 5 = 1"
    "cos_angle cube_params 5 0 = 1" "distance cube_params 0 0 = 0"
    "distance cube_params 5 0 = 2" "cos_angle cube_params 0 0 = 0"
    using v by simp_all
qed

text \<open>
  Claim C9 at the room 2 x 2 x 2 with the scale factor 1 (one cell on each wall).
\<close>

theorem make_parameters_matrix_invariants_witness:
  "\<exists>T P. tessellation 2 2 2 1 = Inr T
      \<and> make_parameters (map real_column (tess_array_points T)) 2 2 2
            (tess_no_xtick T) (tess_no_ytick T) (tess_no_ztick T) = Inr P
      \<and> distance P 0 5 = distance P 5 0 \<and> distance P 0 0 = 0
      \<and> - 1 \<le> cos_angle P 0 5 \<and> cos_angle P 0 5 \<le> 1"
proof -
  have v: "valid_room 2 2 2 1" by (simp add: valid_room_def)
  obtain T P where r: "tessellation 2 2 2 1 = Inr T"
    "make_parameters (map real_column (tess_array_points T))
                (of_rat 2) (of_rat 2) (of_rat 2)
                (tess_no_xtick T) (tess_no_ytick T) (tess_no_ztick T) = Inr P"
    "\<forall>i j. distance P i j = distance P j i \<and> distance P i i = 0
                  \<and> - 1 \<le> cos_angle P i j \<and> cos_angle P i j \<le> 1"
    using make_parameters_matrix_invariants [OF v] by blast
  have "distance P 0 5 = distance P 5 0 \<and> distance P 0 0 = 0
      \<and> - 1 \<le> cos_angle P 0 5 \<and> cos_angle P 0 5 \<le> 1"
    using r(3) by blast
  moreover have "make_parameters (map real_column (tess_array_points T)) 2 2 2
            (tess_no_xtick T) (tess_no_ytick T) (tess_no_ztick T) = Inr P"
    using r(2) by simp
  ultimately show ?thesis using r(1) by blast
qed

subsection \<open>Impulse response\<close>

lemma cir_order_appends:
  "\<exists>x y. cir_order n se er dP dis h0 i (h, l) = (h @ [x], l @ [y])"
  by (simp add: cir_order_def Let_def)

lemma fold_cir_order_prefix:
  "\<exists>xs ys. fold (cir_order n se er dP dis h0) is (h, l) = (h @ xs, l @ ys)
            \<and> length xs = length is \<and> length ys = length is"
proof (induction "is" arbitrary: h l)
  case Nil
  then show ?case by simp
next
  case (Cons i "is")
  obtain x y where s: "cir_order n se er dP dis h0 i (h, l) = (h @ [x], l @ [y])"
    using cir_order_appends by blast
  obtain xs ys where r: "fold (cir_order n se er dP dis h0) is (h @ [x], l @ [y])
        = ((h @ [x]) @ xs, (l @ [y]) @ ys)" "length xs = length is" "length ys = length is"
    using Cons.IH by blast
  have "fold (cir_order n se er dP dis h0) (i # is) (h, l) = (h @ (x # xs), l @ (y # ys))"
    using s r(1) by simp
  moreover have "length (x # xs) = length (i # is)" "length (y # ys) = length (i # is)"
    using r(2,3) by simp_all
  ultimately show ?case by blast
qed

lemma fold_cir_order_first:
  shows "fst (fold (cir_order n se er dP dis h0) [0..<Suc k] ([], [])) ! 0 = [h0]"
    and "length (fst (fold (cir_order n se er dP dis h0) [0..<Suc k] ([], []))) = Suc k"
proof -
  have up: "[0..<Suc k] = 0 # [1..<Suc k]" by (simp add: upt_conv_Cons)
  have s0: "cir_order n se er dP dis h0 0 ([], []) = ([[h0]], [[(0, 0)]])"
    by (simp add: cir_order_def)
  obtain xs ys where r: "fold (cir_order n se er dP dis h0) [1..<Suc k] ([[h0]], [[(0, 0)]])
      = ([[h0]] @ xs, [[(0, 0)]] @ ys)" "length xs = length [1..<Suc k]"
    using fold_cir_order_prefix by blast
  have f: "fold (cir_order n se er dP dis h0) [0..<Suc k] ([], []) = ([h0] # xs, [(0, 0)] # ys)"
    unfolding up using s0 r(1) by simp
  show "fst (fold (cir_order n se er dP dis h0) [0..<Suc k] ([], [])) ! 0 = [h0]"
    unfolding f by simp
  show "length (fst (fold (cir_order n se er dP dis h0) [0..<Suc k] ([], []))) = Suc k"
    unfolding f using r(2) by simp
qed

lemma compute_cir_order0:
  assumes tx: "index_point tx_pos points = Some t" and rx: "index_point rx_pos points = Some r"
    and tw: "np_take wall_label tx_pos = Inr tx_wall"
    and rw: "np_take wall_label rx_pos = Inr rx_wall"
    and area: "delta_A * of_nat (length points) \<noteq> 0"
    and far: "distance parameters t r \<noteq> 0"
  shows "\<exists>h_k. compute_cir m tx_pos rx_pos points wall_label parameters x_lim y_lim z_lim
                  a_r rho delta_A k_reflec = Inr h_k
           \<and> length h_k = k_reflec + 1
           \<and> h_k ! 0 = [((of_nat m + 1) / (2 * pi) * cos_angle parameters t r ^ m
                            / (distance parameters t r) ^ 2 * (a_r * cos_angle parameters r t),
                          distance parameters t r / SPEED_OF_LIGHT)]"
proof -
  have p: "tx_power m parameters t r * rx_wall_factor a_r parameters r t
      = (of_nat m + 1) / (2 * pi) * cos_angle parameters t r ^ m
                            / (distance parameters t r) ^ 2 * (a_r * cos_angle parameters r t)"
    using far by (simp add: tx_power_def rx_wall_factor_def np_divide_where_def dis2_def)
  define af where "af = (2 * x_lim * y_lim + 2 * x_lim * z_lim + 2 * y_lim * z_lim)
                           / (delta_A * of_nat (length points))"
  define h0 where "h0 = (tx_power m parameters t r * rx_wall_factor a_r parameters r t,
                         distance parameters t r / SPEED_OF_LIGHT)"
  define F where "F = fst (fold (cir_order (length points)
                                 (h0_se af rho delta_A m parameters t)
                                 (h0_er a_r parameters r)
                                 (dP_ij rho delta_A parameters) (distance parameters) h0)
                              [0..<Suc k_reflec] ([], []))"
  have c: "compute_cir m tx_pos rx_pos points wall_label parameters x_lim y_lim z_lim
                  a_r rho delta_A k_reflec = Inr F"
    using area
    by (simp add: compute_cir_def py_truediv_r_def tw rw tx rx read_local_def Let_def
        F_def af_def h0_def del: upt_Suc)
  have l: "length F = k_reflec + 1"
    unfolding F_def using fold_cir_order_first(2) by simp
  have "F ! 0 = [h0]"
    unfolding F_def by (rule fold_cir_order_first(1))
  then have z: "F ! 0 = [((of_nat m + 1) / (2 * pi) * cos_angle parameters t r ^ m
                            / (distance parameters t r) ^ 2 * (a_r * cos_angle parameters r t),
                          distance parameters t r / SPEED_OF_LIGHT)]"
    unfolding h0_def p .
  show ?thesis using c l z by blast
qed

lemma index_point_None: "index_point pos vs = None \<longleftrightarrow> (\<forall>v\<in>set vs. \<not> allclose pos v)"
  by (induction vs) auto

lemma np_take_one_error: "np_take_one a p = Inl e \<Longrightarrow> e = IndexError"
  by (cases p) (auto simp: np_index_def bnd_def split: if_splits)

lemma np_take_error: "np_take a pos = Inl e \<Longrightarrow> e = IndexError"
proof -
  assume a: "np_take a pos = Inl e"
  obtain p1 p2 p3 where pos: "pos = (p1, p2, p3)" by (cases pos) auto
  show ?thesis
  proof (cases "np_take_one a p1")
    case (Inl x) then show ?thesis using a pos np_take_one_error [of a p1 x]
      by (simp add: np_take_def)
  next
    case l1: (Inr y1)
    show ?thesis
    proof (cases "np_take_one a p2")
      case (Inl x) then show ?thesis using a pos l1 np_take_one_error [of a p2 x]
        by (simp add: np_take_def)
    next
      case l2: (Inr y2)
      show ?thesis
      proof (cases "np_take_one a p3")
        case (Inl x) then show ?thesis using a pos l1 l2 np_take_one_error [of a p3 x]
          by (simp add: np_take_def)
      next
        case (Inr y3) then show ?thesis using a pos l1 l2 by (simp add: np_take_def)
      qed
    qed
  qed
qed

lemma compute_cir_unmatched:
  assumes "index_point tx_pos points = None \<or> index_point rx_pos points = None"
  shows "\<exists>e. compute_cir m tx_pos rx_pos points wall_label parameters x_lim y_lim z_lim
                  a_r rho delta_A k_reflec = Inl e
             \<and> (delta_A * of_nat (length points) \<noteq> 0
                  \<longrightarrow> np_take wall_label tx_pos \<noteq> Inl IndexError
                  \<longrightarrow> np_take wall_label rx_pos \<noteq> Inl IndexError
                  \<longrightarrow> e = UnboundLocalError)"
proof (cases "delta_A * of_nat (length points) = 0")
  case True
  then show ?thesis by (simp add: compute_cir_def py_truediv_r_def)
next
  case d: False
  show ?thesis
  proof (cases "np_take wall_label tx_pos")
    case (Inl x)
    then have "x = IndexError" by (rule np_take_error)
    then show ?thesis using d Inl by (simp add: compute_cir_def py_truediv_r_def)
  next
    case t: (Inr tw)
    show ?thesis
    proof (cases "np_take wall_label rx_pos")
      case (Inl x)
      then have "x = IndexError" by (rule np_take_error)
      then show ?thesis using d t Inl by (simp add: compute_cir_def py_truediv_r_def)
    next
      case r: (Inr rw)
      have "compute_cir m tx_pos rx_pos points wall_label parameters x_lim y_lim z_lim
                  a_r rho delta_A k_reflec = Inl UnboundLocalError"
      proof (cases "index_point tx_pos points")
        case None
        then show ?thesis using d t r
          by (simp add: compute_cir_def py_truediv_r_def read_local_def Let_def)
      next
        case (Some a)
        then have "index_point rx_pos points = None" using assms by simp
        then show ?thesis using d t r Some
          by (simp add: compute_cir_def py_truediv_r_def read_local_def Let_def)
      qed
      then show ?thesis by simp
    qed
  qed
qed

text \<open>
  Claim C4, as the code has it. \<^verbatim>\<open>compute_cir\<close> has no diagnostic for a position
  that is off the grid. When the transmitter position or the receiver position is close
  (\<^verbatim>\<open>np.allclose\<close>) to no column of \<^verbatim>\<open>points\<close>, the call ends with an exception and
  returns no impulse response. When the statements before the first use of the index
  do not raise (the divisor of \<^verbatim>\<open>area_factor\<close> is not zero, and the lookups of lines
  370 and 374 succeed), the exception is Python's UnboundLocalError: the search loop of
  line 377 or 385 never assigned \<^verbatim>\<open>tx_index_point\<close> or \<^verbatim>\<open>rx_index_point\<close>, which
  line 397 or 399 then reads.
\<close>

theorem compute_cir_off_grid_raises:
  assumes "(\<forall>v\<in>set points. \<not> allclose tx_pos v) \<or> (\<forall>v\<in>set points. \<not> allclose rx_pos v)"
  shows "\<exists>e. compute_cir m tx_pos rx_pos points wall_label parameters x_lim y_lim z_lim
                  a_r rho delta_A k_reflec = Inl e
             \<and> (delta_A * of_nat (length points) \<noteq> 0
                  \<longrightarrow> np_take wall_label tx_pos \<noteq> Inl IndexError
                  \<longrightarrow> np_take wall_label rx_pos \<noteq> Inl IndexError
                  \<longrightarrow> e = UnboundLocalError)"
  using assms by (intro compute_cir_unmatched) (simp add: index_point_None)

lemma points_of_cube:
  "points_of cube_cells = [(1, 1, 2), (1, 0, 1), (0, 1, 1), (1, 2, 1), (2, 1, 1), (1, 1, 0)]"
  by (simp add: points_of_def cube_cells_def real_column_def xyz_def)

lemma labels_of_cube: "labels_of cube_cells = [0, 1, 2, 3, 4, 5]"
  by (simp add: labels_of_def cube_cells_def real_column_def label_def)

lemma np_take_cube_ok:
  "np_take (labels_of cube_cells) (PyInt 0, PyInt 0, PyInt 0) = Inr [0, 0, 0]"
  "np_take (labels_of cube_cells) (PyInt 1, PyInt 1, PyInt 0) = Inr [1, 1, 0]"
  "np_take (labels_of cube_cells) (PyInt 1, PyInt 1, PyInt 1) = Inr [1, 1, 1]"
  "np_take (labels_of cube_cells) (PyInt 1, PyInt 1, PyInt 2) = Inr [1, 1, 2]"
  by (simp_all add: labels_of_cube np_take_def np_index_def)

text \<open>
  Claim C4, as the code has it, at the cells of the room 2 x 2 x 2 with the scale factor
  1: the corner (0, 0, 0) is no centroid.
\<close>

theorem compute_cir_off_grid_raises_witness:
  "compute_cir 1 (PyInt 0, PyInt 0, PyInt 0) (PyInt 1, PyInt 1, PyInt 0)
     (points_of cube_cells) (labels_of cube_cells) cube_params 2 2 2 (1 / 10000) (4 / 5) (1 / 50) 3
   = Inl UnboundLocalError"
proof -
  have h: "(\<forall>v\<in>set (points_of cube_cells). \<not> allclose (PyInt 0, PyInt 0, PyInt 0) v)
         \<or> (\<forall>v\<in>set (points_of cube_cells). \<not> allclose (PyInt 1, PyInt 1, PyInt 0) v)"
    by (simp add: points_of_cube allclose_def isclose_def)
  show ?thesis
    using compute_cir_off_grid_raises [OF h, of 1 "labels_of cube_cells" cube_params 2 2 2
        "1 / 10000" "4 / 5" "1 / 50" 3]
    by (auto simp: np_take_cube_ok points_of_cube)
qed

text \<open>
  Claim C4 as stated (the call fails with the explicit diagnostic PositionNotOnGrid and
  with nothing else) fails: the source defines and raises no such error. With the
  transmitter at the centre (1, 1, 1) of the room 2 x 2 x 2, which is no centroid, the call
  ends with UnboundLocalError.
\<close>

theorem compute_cir_no_position_diagnostic:
  "index_point (PyInt 1, PyInt 1, PyInt 1) (points_of cube_cells) = None
   \<and> compute_cir 1 (PyInt 1, PyInt 1, PyInt 1) (PyInt 1, PyInt 1, PyInt 0)
       (points_of cube_cells) (labels_of cube_cells) cube_params 2 2 2 (1 / 10000) (4 / 5) (1 / 50) 3
     = Inl UnboundLocalError"
  by (simp add: compute_cir_def py_truediv_r_def np_take_cube_ok points_of_cube allclose_def
      isclose_def read_local_def)

lemma delta_Lmax_unit: "delta_Lmax 1 1 1 = Inr 1"
  by (simp add: delta_Lmax_def lcm3_def py_truediv_def py_int_def Let_def)

lemma tessellation_unit:
  "tessellation 1 1 1 1 =
     Inr \<lparr> tess_array_points = unit_cells,
           tess_no_xtick = 1, tess_no_ytick = 1, tess_no_ztick = 1,
           tess_init_index = [0, 1, 2, 3, 4, 5], tess_delta_A = 1 / 200, tess_no_points = 6 \<rparr>"
  by (simp add: tessellation_def delta_Lmax_unit py_truediv_def py_int_def np_zeros4_def Let_def
      init_index_of_def fill_walls_def py_range_def eval_nat_numeral unit_cells_def)

lemma points_of_unit:
  "points_of unit_cells
     = [(1 / 2, 1 / 2, 1), (1 / 2, 0, 1 / 2), (0, 1 / 2, 1 / 2), (1 / 2, 1, 1 / 2),
        (1, 1 / 2, 1 / 2), (1 / 2, 1 / 2, 0)]"
  by (simp add: points_of_def unit_cells_def real_column_def xyz_def of_rat_divide)

lemma labels_of_unit: "labels_of unit_cells = [0, 1, 2, 3, 4, 5]"
  by (simp add: labels_of_def unit_cells_def real_column_def label_def)

text \<open>
  Claim C7 (when the transmitter and the receiver are at centroids of different walls,
  order 0 of the result of \<^verbatim>\<open>compute_cir\<close> is the single line-of-sight record). For the
  room 1 x 1 x 1 with the scale factor 1 the centroids of the ceiling and of the floor
  are (0.5, 0.5, 1.0) and (0.5, 0.5, 0.0), cells 0 and 5, of different walls. With the
  transmitter at the first and the receiver at the second, \<^verbatim>\<open>compute_cir\<close> returns no
  record: line 370, \<^verbatim>\<open>tx_wall = wall_label[tx_pos]\<close>, uses the coordinates as indices
  into the array of wall labels, and numpy raises IndexError for an index that is a
  float. The value \<^verbatim>\<open>tx_wall\<close> is used nowhere. Whatever the Lambertian number, the
  parameters, the receiver area, the reflectance and the number of reflections are, the
  call ends there.
\<close>

theorem compute_cir_centroid_index_error:
  "\<exists>T. tessellation 1 1 1 1 = Inr T
      \<and> index_point (PyFloat (1 / 2), PyFloat (1 / 2), PyFloat 1) (points_of (tess_array_points T)) = Some 0
      \<and> index_point (PyFloat (1 / 2), PyFloat (1 / 2), PyFloat 0) (points_of (tess_array_points T)) = Some 5
      \<and> labels_of (tess_array_points T) ! 0 \<noteq> labels_of (tess_array_points T) ! 5
      \<and> compute_cir m (PyFloat (1 / 2), PyFloat (1 / 2), PyFloat 1)
            (PyFloat (1 / 2), PyFloat (1 / 2), PyFloat 0)
            (points_of (tess_array_points T)) (labels_of (tess_array_points T)) parameters
            1 1 1 a_r rho (of_rat (tess_delta_A T)) k_reflec
          = Inl IndexError"
  by (simp add: tessellation_unit points_of_unit labels_of_unit allclose_def isclose_def
      compute_cir_def py_truediv_r_def np_take_def of_rat_divide)

lemma compute_cir_cube_order0:
  "\<exists>h_k. compute_cir 1 (PyInt 1, PyInt 1, PyInt 2) (PyInt 1, PyInt 1, PyInt 0)
            (points_of cube_cells) (labels_of cube_cells) cube_params 2 2 2 a_r rho (1 / 50) k_reflec
          = Inr h_k
      \<and> length h_k = k_reflec + 1
      \<and> h_k ! 0 = [(a_r / (4 * pi), 2 / SPEED_OF_LIGHT)]"
proof -
  have t: "index_point (PyInt 1, PyInt 1, PyInt 2) (points_of cube_cells) = Some 0"
    by (simp add: points_of_cube allclose_def isclose_def)
  have r: "index_point (PyInt 1, PyInt 1, PyInt 0) (points_of cube_cells) = Some 5"
    by (simp add: points_of_cube allclose_def isclose_def)
  have d: "(1 / 50) * of_nat (length (points_of cube_cells)) \<noteq> (0::real)"
    by (simp add: points_of_cube)
  have z: "distance cube_params 0 5 \<noteq> 0" by (simp add: cube_params_values)
  show ?thesis
    using compute_cir_order0 [OF t r np_take_cube_ok(4) np_take_cube_ok(2) d z,
        of 1 2 2 2 a_r rho k_reflec]
    by (simp add: cube_params_values mult.commute)
qed

text \<open>
  Claim C8. The entry \<open>(i, j)\<close> of \<^verbatim>\<open>dP_ij\<close> (line 416), the factor by which lines 456
  and 457 extend a path for the orders 2 and more, is
  \<open>rho * delta_A * cos_angle[i,j] * cos_angle[j,i] / (pi * distance[i,j]\<^sup>2)\<close> when
  \<open>distance[i,j]\<close> is not 0 and is 0 when it is 0; and wherever the mask
  \<^verbatim>\<open>dis2 != 0\<close> of \<^verbatim>\<open>np.divide\<close> lets the division happen, the divisor
  \<open>pi * dis2[i,j]\<close> is not 0.
\<close>

theorem dP_ij_formula:
  "(distance parameters i j \<noteq> 0 \<longrightarrow>
      dP_ij rho delta_A parameters i j
        = rho * delta_A * cos_angle parameters i j * cos_angle parameters j i
            / (pi * (distance parameters i j)\<^sup>2))
   \<and> (distance parameters i j = 0 \<longrightarrow> dP_ij rho delta_A parameters i j = 0)
   \<and> (dis2 parameters i j \<noteq> 0 \<longrightarrow> pi * dis2 parameters i j \<noteq> 0)"
  by (simp add: dP_ij_def dis2_def np_divide_where_def)

text \<open>
  Claim C8 at the parameters of the room 2 x 2 x 2 with the scale factor 1: the ceiling
  cell 0 and the floor cell 5 are at distance 2 and face each other; the pair (0, 0) has
  distance 0.
\<close>

theorem dP_ij_formula_witness:
  "dP_ij (4 / 5) (1 / 50) cube_params 0 5 = (4 / 5) * (1 / 50) * 1 * 1 / (pi * 2\<^sup>2)
   \<and> dP_ij (4 / 5) (1 / 50) cube_params 0 0 = 0"
  using dP_ij_formula [of cube_params 0 5 "4 / 5" "1 / 50"]
        dP_ij_formula [of cube_params 0 0 "4 / 5" "1 / 50"]
  by (simp add: cube_params_values)

end
